theory Spec2Isabelle
  imports Main
begin

section \<open>Strings, character classes and the JavaScript primitives used by the launcher\<close>

text \<open>
  The launcher \<^verbatim>\<open>run_mcp_server.js\<close> edits a TOML file with regular expressions over
  raw text. JavaScript strings are sequences of code units; they are modelled as
  \<^typ>\<open>string\<close>, so the model covers the code units 0 to 255. In that range the class
  \<^verbatim>\<open>\s\<close> (and the set removed by \<^verbatim>\<open>trim\<close>) is TAB, LF, VT, FF, CR, SPACE and NBSP, and the
  line terminators excluded by \<^verbatim>\<open>.\<close> without the \<^verbatim>\<open>s\<close> flag are LF and CR.
\<close>

definition is_ws :: "char \<Rightarrow> bool" where
  "is_ws c = (c = CHR 0x09 \<or> c = CHR 0x0A \<or> c = CHR 0x0B \<or> c = CHR 0x0C \<or> c = CHR 0x0D
     \<or> c = CHR 0x20 \<or> c = CHR 0xA0)"

definition is_line_terminator :: "char \<Rightarrow> bool" where
  "is_line_terminator c = (c = CHR 0x0A \<or> c = CHR 0x0D)"

definition is_digit :: "char \<Rightarrow> bool" where
  "is_digit c = (c \<in> set ''0123456789'')"

definition js_trim :: "string \<Rightarrow> string" where
  "js_trim s = rev (dropWhile is_ws (rev (dropWhile is_ws s)))"

text \<open>\<^verbatim>\<open>path.split('.')\<close>: the result always has at least one segment.\<close>

fun split_dot :: "string \<Rightarrow> string list" where
  "split_dot [] = [[]]"
| "split_dot (c # cs) =
     (if c = CHR ''.'' then [] # split_dot cs
      else (case split_dot cs of [] \<Rightarrow> [[c]] | p # ps \<Rightarrow> (c # p) # ps))"

text \<open>\<^verbatim>\<open>haystack.includes(needle)\<close>.\<close>

fun js_includes :: "string \<Rightarrow> string \<Rightarrow> bool" where
  "js_includes [] needle = (needle = [])"
| "js_includes (c # cs) needle = (take (length needle) (c # cs) = needle \<or> js_includes cs needle)"

subsection \<open>\<^verbatim>\<open>Number(value)\<close> restricted to whether the result is NaN\<close>

text \<open>
  \<^verbatim>\<open>Number\<close> applied to a string trims white space and then reads a
  \<^verbatim>\<open>StrNumericLiteral\<close>: an optionally signed decimal literal (with \<^verbatim>\<open>Infinity\<close>), or an
  unsigned binary, octal or hexadecimal integer literal. The empty string yields 0.
  Only NaN-ness matters to the caller.
\<close>

definition all_in :: "string \<Rightarrow> string \<Rightarrow> bool" where
  "all_in cs s = (s \<noteq> [] \<and> list_all (\<lambda>c. c \<in> set cs) s)"

fun exponent_opt :: "string \<Rightarrow> bool" where
  "exponent_opt [] = True"
| "exponent_opt (c # s) =
     ((c = CHR ''e'' \<or> c = CHR ''E'') \<and>
      (case s of
         [] \<Rightarrow> False
       | d # t \<Rightarrow> if d = CHR ''+'' \<or> d = CHR ''-'' then all_in ''0123456789'' t
                  else all_in ''0123456789'' s))"

definition unsigned_decimal :: "string \<Rightarrow> bool" where
  "unsigned_decimal s =
     (s = ''Infinity'' \<or>
      (let ds = takeWhile is_digit s; r = dropWhile is_digit s in
       case r of
         [] \<Rightarrow> ds \<noteq> []
       | c # t \<Rightarrow>
           if c = CHR ''.'' then
             (let fs = takeWhile is_digit t; r2 = dropWhile is_digit t in
              (ds \<noteq> [] \<or> fs \<noteq> []) \<and> exponent_opt r2)
           else ds \<noteq> [] \<and> exponent_opt r))"

definition str_decimal :: "string \<Rightarrow> bool" where
  "str_decimal s =
     (case s of
        [] \<Rightarrow> False
      | c # t \<Rightarrow> if c = CHR ''+'' \<or> c = CHR ''-'' then unsigned_decimal t
                 else unsigned_decimal s)"

definition non_decimal :: "string \<Rightarrow> bool" where
  "non_decimal s =
     (case s of
        z # x # t \<Rightarrow>
          z = CHR ''0'' \<and>
          (((x = CHR ''b'' \<or> x = CHR ''B'') \<and> all_in ''01'' t) \<or>
           ((x = CHR ''o'' \<or> x = CHR ''O'') \<and> all_in ''01234567'' t) \<or>
           ((x = CHR ''x'' \<or> x = CHR ''X'') \<and> all_in ''0123456789abcdefABCDEF'' t))
      | _ \<Rightarrow> False)"

definition isNaN_Number :: "string \<Rightarrow> bool" where
  "isNaN_Number v =
     (let t = js_trim v in t \<noteq> [] \<and> \<not> str_decimal t \<and> \<not> non_decimal t)"

subsection \<open>The value formatting of \<^verbatim>\<open>updateTomlValue\<close>\<close>

definition startsWith_bracket :: "string \<Rightarrow> bool" where
  "startsWith_bracket v = (case v of [] \<Rightarrow> False | c # _ \<Rightarrow> c = CHR ''['')"

definition endsWith_bracket :: "string \<Rightarrow> bool" where
  "endsWith_bracket v = (v \<noteq> [] \<and> last v = CHR '']'')"

definition quoted :: "string \<Rightarrow> string" where
  "quoted v = CHR 0x22 # v @ [CHR 0x22]"

definition formatValue :: "string \<Rightarrow> string" where
  "formatValue v =
     (if v = ''true'' \<or> v = ''false'' \<or> \<not> isNaN_Number v then v
      else if startsWith_bracket v \<and> endsWith_bracket v then v
      else quoted v)"

section \<open>The regular expressions of the patcher\<close>

text \<open>
  The patcher builds its regular expressions by interpolating path segments into the
  pattern source. A segment character other than a \<^verbatim>\<open>SyntaxCharacter\<close>
  (\<^verbatim>\<open>^ $ \ . * + ? ( ) [ ] { } |\<close>) is a pattern character that matches itself; a dot is
  the wildcard: under the \<^verbatim>\<open>s\<close> flag (\<open>Dot True\<close>) it matches every code unit, without
  the flag (\<open>Dot False\<close>) every code unit but a line terminator. A segment with any other syntax character builds an expression (or raises a
  \<^verbatim>\<open>SyntaxError\<close>) outside this model: \<open>compile\<close> returns \<open>None\<close> for it.
\<close>

datatype atom = Lit char | Dot bool

definition syntax_character :: "char \<Rightarrow> bool" where
  "syntax_character c = (c = CHR 0x5C \<or> c \<in> set ''^$.*+?()[]{}|'')"

fun compile :: "bool \<Rightarrow> string \<Rightarrow> atom list option" where
  "compile dotAll [] = Some []"
| "compile dotAll (c # cs) =
     (case compile dotAll cs of
        None \<Rightarrow> None
      | Some as \<Rightarrow>
          if c = CHR ''.'' then Some (Dot dotAll # as)
          else if syntax_character c then None
          else Some (Lit c # as))"

fun match_atoms :: "atom list \<Rightarrow> string \<Rightarrow> string option" where
  "match_atoms [] s = Some s"
| "match_atoms (a # as) [] = None"
| "match_atoms (Lit c # as) (d # s) = (if c = d then match_atoms as s else None)"
| "match_atoms (Dot dotAll # as) (d # s) =
     (if dotAll \<or> \<not> is_line_terminator d then match_atoms as s else None)"

text \<open>
  A successful match of a non-global expression: the text before the match, the matched
  text, the capture groups and the text after the match.
\<close>

type_synonym rx_match = "string \<times> string \<times> string list \<times> string"

text \<open>
  The prefix \<^verbatim>\<open>\[NAME\]\<close> of the section expression at the start of \<open>s\<close>: returns the
  text after the closing bracket.
\<close>

definition header_at :: "atom list \<Rightarrow> string \<Rightarrow> string option" where
  "header_at pat s =
     (case s of
        [] \<Rightarrow> None
      | c # t \<Rightarrow>
          if c = CHR ''['' then
            (case match_atoms pat t of
               None \<Rightarrow> None
             | Some u \<Rightarrow>
                 (case u of
                    [] \<Rightarrow> None
                  | d # w \<Rightarrow> if d = CHR '']'' then Some w else None))
          else None)"

text \<open>
  \<^verbatim>\<open>\[NAME\]([^\[]*)\<close> with flag \<^verbatim>\<open>s\<close>, at the start of \<open>s\<close>: returns group 1 and
  the rest. The star is greedy and nothing follows it, so there is no backtracking.
\<close>

definition section_at :: "atom list \<Rightarrow> string \<Rightarrow> (string \<times> string) option" where
  "section_at pat s =
     (case header_at pat s of
        None \<Rightarrow> None
      | Some w \<Rightarrow>
          Some (takeWhile (\<lambda>x. x \<noteq> CHR ''['') w, dropWhile (\<lambda>x. x \<noteq> CHR ''['') w))"

text \<open>The leftmost match of the section expression in \<open>s\<close> (\<^verbatim>\<open>content.match(sectionRegex)\<close>).\<close>

fun find_section :: "atom list \<Rightarrow> string \<Rightarrow> rx_match option" where
  "find_section pat [] = None"
| "find_section pat (c # s) =
     (case section_at pat (c # s) of
        Some (g, r) \<Rightarrow> Some ([], take (length (c # s) - length r) (c # s), [g], r)
      | None \<Rightarrow>
          (case find_section pat s of
             None \<Rightarrow> None
           | Some (b, m, gs, a) \<Rightarrow> Some (c # b, m, gs, a)))"

text \<open>
  \<^verbatim>\<open>KEY\s*=\s*.*\<close> with flag \<^verbatim>\<open>m\<close>, at the start of \<open>s\<close>: returns the rest after the
  match. \<^verbatim>\<open>=\<close> is not white space, so the first star cannot give anything back; the second
  star takes all white space (line breaks too) and \<^verbatim>\<open>.*\<close> runs to the end of that line.
\<close>

definition key_at :: "atom list \<Rightarrow> string \<Rightarrow> string option" where
  "key_at kp s =
     (case match_atoms kp s of
        None \<Rightarrow> None
      | Some t \<Rightarrow>
          (case dropWhile is_ws t of
             [] \<Rightarrow> None
           | c # u \<Rightarrow>
               if c = CHR ''=''
               then Some (dropWhile (\<lambda>x. \<not> is_line_terminator x) (dropWhile is_ws u))
               else None))"

fun find_key :: "atom list \<Rightarrow> string \<Rightarrow> rx_match option" where
  "find_key kp [] = None"
| "find_key kp (c # s) =
     (case key_at kp (c # s) of
        Some r \<Rightarrow> Some ([], take (length (c # s) - length r) (c # s), [], r)
      | None \<Rightarrow>
          (case find_key kp s of
             None \<Rightarrow> None
           | Some (b, m, gs, a) \<Rightarrow> Some (c # b, m, gs, a)))"

subsection \<open>\<^verbatim>\<open>String.prototype.replace\<close> with a replacement string\<close>

text \<open>
  The replacement is a template (\<^verbatim>\<open>GetSubstitution\<close>): \<^verbatim>\<open>$$\<close> is a dollar sign, \<^verbatim>\<open>$&\<close> the
  matched text, \<^verbatim>\<open>$`\<close> the text before the match, \<^verbatim>\<open>$'\<close> the text after it, and \<^verbatim>\<open>$n\<close>,
  \<^verbatim>\<open>$nn\<close> the capture group of that number when the expression has such a group (a
  two-digit number beyond the groups is read as one digit). Any other dollar sign stands
  for itself.
\<close>

definition digit_val :: "char \<Rightarrow> nat" where
  "digit_val c = of_char c - 48"

fun expand :: "string list \<Rightarrow> string \<Rightarrow> string \<Rightarrow> string \<Rightarrow> string \<Rightarrow> string" where
  "expand caps m b a [] = []"
| "expand caps m b a [c] = [c]"
| "expand caps m b a (c # d # t) =
     (if c \<noteq> CHR ''$'' then c # expand caps m b a (d # t)
      else if d = CHR ''$'' then CHR ''$'' # expand caps m b a t
      else if d = CHR ''&'' then m @ expand caps m b a t
      else if d = CHR 0x60 then b @ expand caps m b a t
      else if d = CHR 0x27 then a @ expand caps m b a t
      else if is_digit d then
        (case t of
           [] \<Rightarrow>
             if 1 \<le> digit_val d \<and> digit_val d \<le> length caps
             then caps ! (digit_val d - 1) else [c, d]
         | e # t' \<Rightarrow>
             if is_digit e \<and> 1 \<le> 10 * digit_val d + digit_val e
                \<and> 10 * digit_val d + digit_val e \<le> length caps
             then caps ! (10 * digit_val d + digit_val e - 1) @ expand caps m b a t'
             else if is_digit e \<and> 10 * digit_val d + digit_val e = 0
             then c # d # e # expand caps m b a t'
             else if 1 \<le> digit_val d \<and> digit_val d \<le> length caps
             then caps ! (digit_val d - 1) @ expand caps m b a (e # t')
             else c # d # expand caps m b a (e # t'))
      else c # expand caps m b a (d # t))"

text \<open>\<^verbatim>\<open>s.replace(re, template)\<close> for a non-global \<open>re\<close> whose first match in \<open>s\<close> is \<open>mo\<close>.\<close>

definition replace_first :: "rx_match option \<Rightarrow> string \<Rightarrow> string \<Rightarrow> string" where
  "replace_first mo tmpl s =
     (case mo of
        None \<Rightarrow> s
      | Some (b, m, caps, a) \<Rightarrow> b @ expand caps m b a tmpl @ a)"

section \<open>The TOML patcher \<^verbatim>\<open>updateTomlValue\<close>\<close>

text \<open>
  The sequence that is shared by the two-segment and the three-segment branch once the
  section expression has matched: \<open>name\<close> is the text interpolated into the header,
  \<open>mt\<close> the match of the section expression, whose group 1 is the section's span.
  The key expression is built only here, so only here can the key leave the model.
\<close>

definition patch_section :: "string \<Rightarrow> rx_match \<Rightarrow> string \<Rightarrow> string \<Rightarrow> string \<Rightarrow> string option" where
  "patch_section name mt key fv content =
     (case mt of (b, m, caps, a) \<Rightarrow>
        (let sectionContent = caps ! 0 in
         case compile False key of
           None \<Rightarrow> None
         | Some keyRegex \<Rightarrow>
             if find_key keyRegex sectionContent \<noteq> None then
               Some (replace_first (Some mt)
                 (''['' @ name @ '']'' @
                    replace_first (find_key keyRegex sectionContent) (key @ '' = '' @ fv) sectionContent)
                 content)
             else
               Some (replace_first (Some mt)
                 (''['' @ name @ '']'' @ sectionContent @ ''\<newline>'' @ key @ '' = '' @ fv)
                 content)))"

text \<open>
  \<^verbatim>\<open>\[SECTION\.([^\]]*)\]([^\[]*)\<close> at the start of \<open>s\<close>: group 1 runs to the first
  closing bracket (it cannot contain one and must be followed by one), group 2 to the next
  opening bracket. Returns group 1, group 2 and the rest.
\<close>

definition nested_at :: "atom list \<Rightarrow> string \<Rightarrow> (string \<times> string \<times> string) option" where
  "nested_at pat s =
     (case s of
        [] \<Rightarrow> None
      | c # t \<Rightarrow>
          if c = CHR ''['' then
            (case match_atoms pat t of
               None \<Rightarrow> None
             | Some u \<Rightarrow>
                 (case u of
                    [] \<Rightarrow> None
                  | d # w \<Rightarrow>
                      if d = CHR ''.'' then
                        (case dropWhile (\<lambda>x. x \<noteq> CHR '']'') w of
                           [] \<Rightarrow> None
                         | e # r \<Rightarrow>
                             Some (takeWhile (\<lambda>x. x \<noteq> CHR '']'') w,
                                   takeWhile (\<lambda>x. x \<noteq> CHR ''['') r,
                                   dropWhile (\<lambda>x. x \<noteq> CHR ''['') r))
                      else None))
          else None)"

text \<open>
  The \<^verbatim>\<open>while ((nestedMatch = re.exec(content)) !== null)\<close> loop of a global expression:
  each call searches from \<^verbatim>\<open>lastIndex\<close>, the end of the previous match. The function lists
  the groups of the successive matches in \<open>s\<close>, the text from \<^verbatim>\<open>lastIndex\<close> on.
\<close>

function nested_matches :: "atom list \<Rightarrow> string \<Rightarrow> (string \<times> string) list" where
  "nested_matches pat [] = []"
| "nested_matches pat (c # s) =
     (case nested_at pat (c # s) of
        Some (g1, g2, r) \<Rightarrow> (g1, g2) # nested_matches pat r
      | None \<Rightarrow> nested_matches pat s)"
  by pat_completeness auto
termination
proof (relation "measure (\<lambda>(pat, s). length s)")
  show "wf (measure (\<lambda>(pat, s). length s))" by simp
next
  fix pat :: "atom list" and c :: char and s x2 g1 y g2 r
  assume h: "nested_at pat (c # s) = Some x2" and x2: "(g1, y) = x2" and y: "(g2, r) = y"
  have ma: "\<And>t u. match_atoms pat t = Some u \<Longrightarrow> length u \<le> length t"
  proof (induction pat)
    case Nil
    then show ?case by simp
  next
    case (Cons a as)
    then show ?case by (cases a; cases t) (auto split: if_splits dest!: Cons.IH)
  qed
  from h x2 y obtain t u w e r0 where s: "c # s = CHR ''['' # t"
    and m: "match_atoms pat t = Some u"
    and u: "u = CHR ''.'' # w" and d: "dropWhile (\<lambda>x. x \<noteq> CHR '']'') w = e # r0"
    and r: "r = dropWhile (\<lambda>x. x \<noteq> CHR ''['') r0"
    by (auto simp: nested_at_def split: list.splits if_splits option.splits)
  have "length r \<le> length r0" using r by (simp add: length_dropWhile_le)
  also have "\<dots> < length (e # r0)" by simp
  also have "\<dots> \<le> length w"
    using d length_dropWhile_le[of "\<lambda>x. x \<noteq> CHR '']''" w] by simp
  also have "\<dots> < length u" using u by simp
  also have "\<dots> \<le> length t" using ma[OF m] .
  also have "\<dots> < length (c # s)" using s by simp
  finally show "((pat, r), (pat, c # s)) \<in> measure (\<lambda>(pat, s). length s)" by simp
next
  fix pat :: "atom list" and c :: char and s
  show "((pat, s), (pat, c # s)) \<in> measure (\<lambda>(pat, s). length s)" by simp
qed

text \<open>
  The loop leaves at the first match whose group 1 is the key; \<open>foundMatch\<close> is its flag
  at the exit.
\<close>

definition foundMatch :: "atom list \<Rightarrow> string \<Rightarrow> string \<Rightarrow> bool" where
  "foundMatch pat key content = (key \<in> fst ` set (nested_matches pat content))"

definition updateTomlValue :: "string \<Rightarrow> string \<Rightarrow> string \<Rightarrow> string option" where
  "updateTomlValue content path v =
     (let pathParts = split_dot path;
          section = pathParts ! 0;
          formattedValue = formatValue v
      in
      if length pathParts > 2 then
        (let nestedSection = pathParts ! 0 @ ''.'' @ pathParts ! 1;
             key = pathParts ! 2
         in
         case compile True nestedSection of
           None \<Rightarrow> None
         | Some nestedSectionRegex \<Rightarrow>
             (case find_section nestedSectionRegex content of
                Some nestedSectionMatch \<Rightarrow>
                  patch_section nestedSection nestedSectionMatch key formattedValue content
              | None \<Rightarrow>
                  Some (content @ ''\<newline>['' @ nestedSection @ '']\<newline>'' @ key @ '' = ''
                          @ formattedValue @ ''\<newline>'')))
      else if length pathParts = 2 then
        (let key = pathParts ! 1 in
         case compile True section of
           None \<Rightarrow> None
         | Some sectionRegex \<Rightarrow>
             (case find_section sectionRegex content of
                Some sectionMatch \<Rightarrow>
                  patch_section section sectionMatch key formattedValue content
              | None \<Rightarrow>
                  (case compile False section of
                     None \<Rightarrow> None
                   | Some nestedSectionRegex \<Rightarrow>
                       if foundMatch nestedSectionRegex key content
                       then Some content
                       else Some (content @ ''\<newline>['' @ section @ '']\<newline>'' @ key @ '' = ''
                                    @ formattedValue @ ''\<newline>''))))
      else Some content)"

section \<open>Reading a section: \<^verbatim>\<open>getConfigSection\<close>\<close>

text \<open>
  The file is \<open>None\<close> when \<^verbatim>\<open>readAllConfig\<close> returns \<^verbatim>\<open>null\<close> (no file, or a read error).
  The object \<^verbatim>\<open>nestedSections\<close> is an association list in which an assignment to a present
  key overwrites its value. An assignment of a string to the property \<^verbatim>\<open>__proto__\<close> of an
  object literal reaches the inherited setter, which ignores it.
\<close>

datatype section_value = Null | Text string | Nested "(string \<times> string) list"

fun obj_set :: "(string \<times> string) list \<Rightarrow> string \<Rightarrow> string \<Rightarrow> (string \<times> string) list" where
  "obj_set [] k v = (if k = ''__proto__'' then [] else [(k, v)])"
| "obj_set ((k', v') # ps) k v =
     (if k = ''__proto__'' then (k', v') # ps
      else if k' = k then (k, v) # ps
      else (k', v') # obj_set ps k v)"

definition collect_nested :: "(string \<times> string) list \<Rightarrow> (string \<times> string) list" where
  "collect_nested ms = foldl (\<lambda>obj (g1, g2). obj_set obj g1 (js_trim g2)) [] ms"

definition getConfigSection :: "string option \<Rightarrow> string \<Rightarrow> section_value option" where
  "getConfigSection file section =
     (case file of
        None \<Rightarrow> Some Null
      | Some configContent \<Rightarrow>
          if configContent = [] then Some Null
          else
            (case compile True section of
               None \<Rightarrow> None
             | Some sectionRegex \<Rightarrow>
                 (case find_section sectionRegex configContent of
                    Some (b, m, caps, a) \<Rightarrow> Some (Text (js_trim (caps ! 0)))
                  | None \<Rightarrow>
                      (case compile False section of
                         None \<Rightarrow> None
                       | Some nestedSectionRegex \<Rightarrow>
                           (let nestedSections =
                                  collect_nested (nested_matches nestedSectionRegex configContent)
                            in if length nestedSections > 0 then Some (Nested nestedSections)
                               else Some Null)))))"

section \<open>Environment overrides: \<^verbatim>\<open>ENV_MAPPINGS\<close> and the loop of \<^verbatim>\<open>updateConfigIfNeeded\<close>\<close>






section \<open>The default-backfill passes\<close>



text \<open>\<^verbatim>\<open>KEY\s*=\s*\d+\<close> at the start of \<open>s\<close>, and whether it matches anywhere in \<open>s\<close>.\<close>

definition number_assign_at :: "string \<Rightarrow> string \<Rightarrow> bool" where
  "number_assign_at key s =
     (case match_atoms (map Lit key) s of
        None \<Rightarrow> False
      | Some t \<Rightarrow>
          (case dropWhile is_ws t of
             [] \<Rightarrow> False
           | c # u \<Rightarrow>
               c = CHR ''='' \<and>
               (case dropWhile is_ws u of [] \<Rightarrow> False | d # w \<Rightarrow> is_digit d)))"

fun has_number_assign :: "string \<Rightarrow> string \<Rightarrow> bool" where
  "has_number_assign key [] = False"
| "has_number_assign key (c # s) = (number_assign_at key (c # s) \<or> has_number_assign key s)"




text \<open>One backfill step of \<^verbatim>\<open>checkBrowserSettings\<close>, and the body of the function.\<close>

definition backfill :: "string \<Rightarrow> string \<Rightarrow> string \<times> bool \<Rightarrow> string \<times> bool" where
  "backfill key dflt st =
     (case st of (configContent, modified) \<Rightarrow>
        if \<not> has_number_assign key configContent then
          (replace_first (find_section (map Lit ''browser'') configContent)
             (''[browser]$1'' @ key @ '' = '' @ dflt @ ''\<newline>'') configContent, True)
        else (configContent, modified))"

definition browser_pass :: "string \<Rightarrow> string \<times> bool" where
  "browser_pass configContent =
     (if \<not> js_includes configContent ''[browser]'' then
        (configContent @ ''\<newline>[browser]\<newline>'' @ ''headless = false\<newline>''
           @ ''disable_security = true\<newline>'' @ ''timeout = 30000\<newline>''
           @ ''retry_count = 3\<newline>'' @ ''retry_delay = 1000\<newline>'', True)
      else
        backfill ''retry_delay'' ''1000''
          (backfill ''retry_count'' ''3''
             (backfill ''timeout'' ''30000'' (configContent, False))))"

definition checkBrowserSettings :: "string option \<Rightarrow> string option" where
  "checkBrowserSettings file =
     (case file of
        None \<Rightarrow> None
      | Some configContent \<Rightarrow>
          (case browser_pass configContent of
             (c, modified) \<Rightarrow> if modified then Some c else Some configContent))"

section \<open>Predicates for stating the properties\<close>

text \<open>A name without regular-expression syntax characters: it matches itself only.\<close>

definition literal :: "string \<Rightarrow> bool" where
  "literal n = list_all (\<lambda>c. \<not> syntax_character c) n"

text \<open>
  Every opening \<^verbatim>\<open>[NAME.\<close> of a nested header in the document is closed: the first
  bracket after it, if there is one, is a closing bracket.
\<close>

fun headers_closed :: "string \<Rightarrow> string \<Rightarrow> bool" where
  "headers_closed n [] = True"
| "headers_closed n (c # s) =
     ((if take (length n + 2) (c # s) = CHR ''['' # n @ ''.''
       then (case dropWhile (\<lambda>x. x \<noteq> CHR ''['' \<and> x \<noteq> CHR '']'') (drop (length n + 2) (c # s)) of
               [] \<Rightarrow> True
             | d # r \<Rightarrow> d = CHR '']'')
       else True) \<and> headers_closed n s)"

text \<open>
  The span that the section expression of the patcher and of the reader captures for
  \<open>name\<close> in the content (\<^verbatim>\<open>sectionMatch[1]\<close>); empty when there is no match.
\<close>

definition section_span :: "string \<Rightarrow> string \<Rightarrow> string" where
  "section_span name content =
     (case compile True name of
        None \<Rightarrow> []
      | Some pat \<Rightarrow>
          (case find_section pat content of
             None \<Rightarrow> []
           | Some (b, m, caps, a) \<Rightarrow> caps ! 0))"

text \<open>
  The span \<open>g\<close> of a section after the patcher has set \<open>key\<close> to the formatted value
  \<open>fv\<close> in it, when no dollar sign is involved: the first match of the key expression is
  replaced, or a new line is appended.
\<close>

definition patched_span :: "string \<Rightarrow> string \<Rightarrow> string \<Rightarrow> string" where
  "patched_span key fv g =
     (case find_key (map Lit key) g of
        None \<Rightarrow> g @ ''\<newline>'' @ key @ '' = '' @ fv
      | Some (kb, km, caps, ka) \<Rightarrow> kb @ key @ '' = '' @ fv @ ka)"

section \<open>Properties of the path splitting\<close>

lemma split_dot_nonempty: "split_dot p \<noteq> []"
  by (induction p) (auto split: list.splits)

lemma split_dot_no_dot: "s \<in> set (split_dot p) \<Longrightarrow> CHR ''.'' \<notin> set s"
  by (induction p arbitrary: s) (auto split: list.splits if_splits)

lemma split_dot_plain: "CHR ''.'' \<notin> set a \<Longrightarrow> split_dot a = [a]"
  by (induction a) auto

lemma split_dot_append:
  "CHR ''.'' \<notin> set a \<Longrightarrow> split_dot (a @ CHR ''.'' # b) = a # split_dot b"
  by (induction a) (auto simp: split_dot_nonempty split: list.splits)

lemma split_dot_two:
  assumes "CHR ''.'' \<notin> set a" and "CHR ''.'' \<notin> set b"
  shows "split_dot (a @ ''.'' @ b) = [a, b]"
  using assms by (simp add: split_dot_append split_dot_plain)

lemma split_dot_three:
  assumes "CHR ''.'' \<notin> set a" and "CHR ''.'' \<notin> set b" and "CHR ''.'' \<notin> set c"
  shows "split_dot (a @ ''.'' @ b @ ''.'' @ c) = [a, b, c]"
  using assms by (simp add: split_dot_append split_dot_plain)

lemma length_gt3_conv: "3 < length xs \<Longrightarrow> \<exists>a b c d r. xs = a # b # c # d # r"
  by (cases xs; simp; cases "tl xs"; simp; cases "tl (tl xs)"; simp;
      cases "tl (tl (tl xs))"; simp)

section \<open>Auxiliary facts about the matchers\<close>

lemma match_atoms_SomeD:
  "match_atoms pat t = Some u \<Longrightarrow>
     \<exists>h. t = h @ u \<and> length h = length pat \<and> (\<forall>x. match_atoms pat (h @ x) = Some x)"
proof (induction pat t rule: match_atoms.induct)
  case (1 s)
  then show ?case by simp
next
  case (2 a as)
  then show ?case by simp
next
  case (3 c as d s)
  then have cd: "c = d" and m: "match_atoms as s = Some u" by (auto split: if_splits)
  from 3(1)[OF cd m] obtain h where "s = h @ u" "length h = length as"
    "\<forall>x. match_atoms as (h @ x) = Some x" by blast
  then show ?case using cd by (intro exI[of _ "d # h"]) simp
next
  case (4 dotAll as d s)
  then have ok: "dotAll \<or> \<not> is_line_terminator d" and m: "match_atoms as s = Some u"
    by (auto split: if_splits)
  from 4(1)[OF ok m] obtain h where "s = h @ u" "length h = length as"
    "\<forall>x. match_atoms as (h @ x) = Some x" by blast
  then show ?case using ok by (intro exI[of _ "d # h"]) auto
qed

lemma match_atoms_Lit: "match_atoms (map Lit n) s = Some r \<longleftrightarrow> s = n @ r"
  by (induction n arbitrary: s; case_tac s) auto

lemma match_atoms_take:
  "length pat \<le> length t \<Longrightarrow> match_atoms pat (t @ x) = map_option (\<lambda>u. u @ x) (match_atoms pat t)"
  by (induction pat t rule: match_atoms.induct) auto

lemma header_at_SomeD:
  assumes "header_at pat s = Some w"
  shows "\<exists>h. s = CHR ''['' # h @ CHR '']'' # w \<and> length h = length pat \<and>
             (\<forall>x. match_atoms pat (h @ x) = Some x)"
proof -
  from assms obtain t u where s: "s = CHR ''['' # t" and m: "match_atoms pat t = Some u"
    and u: "u = CHR '']'' # w"
    by (auto simp: header_at_def split: list.splits if_splits option.splits)
  from match_atoms_SomeD[OF m] obtain h where "t = h @ u" "length h = length pat"
    "\<forall>x. match_atoms pat (h @ x) = Some x" by blast
  then show ?thesis using s u by auto
qed

lemma header_at_I:
  "\<forall>x. match_atoms pat (h @ x) = Some x \<Longrightarrow> header_at pat (CHR ''['' # h @ CHR '']'' # w) = Some w"
  by (simp add: header_at_def)

lemma find_section_SomeD:
  "find_section pat c = Some (b, m, caps, a) \<Longrightarrow>
     \<exists>h g. c = b @ m @ a \<and> m = CHR ''['' # h @ CHR '']'' # g \<and> caps = [g] \<and>
           length h = length pat \<and> (\<forall>x. match_atoms pat (h @ x) = Some x) \<and>
           CHR ''['' \<notin> set g \<and> (a = [] \<or> hd a = CHR ''['')"
proof (induction c arbitrary: b)
  case Nil
  then show ?case by simp
next
  case (Cons x s)
  show ?case
  proof (cases "section_at pat (x # s)")
    case None
    with Cons.prems obtain b' where f: "find_section pat s = Some (b', m, caps, a)" and b: "b = x # b'"
      by (auto split: option.splits)
    from Cons.IH[OF f] show ?thesis using b by auto
  next
    case (Some gr)
    obtain g r where gr: "gr = (g, r)" by (cases gr)
    with Some Cons.prems have b: "b = []" and a: "a = r" and caps: "caps = [g]"
      and m: "m = take (length (x # s) - length r) (x # s)" by auto
    from Some gr obtain w where hw: "header_at pat (x # s) = Some w"
      and g: "g = takeWhile (\<lambda>x. x \<noteq> CHR ''['') w" and r: "r = dropWhile (\<lambda>x. x \<noteq> CHR ''['') w"
      by (auto simp: section_at_def split: option.splits)
    from header_at_SomeD[OF hw] obtain h where xs: "x # s = CHR ''['' # h @ CHR '']'' # w"
      and lh: "length h = length pat" and mh: "\<forall>x. match_atoms pat (h @ x) = Some x" by blast
    have w: "w = g @ r" using g r by simp
    have xs': "x # s = (CHR ''['' # h @ CHR '']'' # g) @ r" using xs w by simp
    have "m = CHR ''['' # h @ CHR '']'' # g" unfolding m xs' by simp
    moreover have "CHR ''['' \<notin> set g" using g by (auto dest: set_takeWhileD)
    moreover have "r = [] \<or> hd r = CHR ''[''" using r hd_dropWhile[of "\<lambda>x. x \<noteq> CHR ''[''" w] by auto
    ultimately show ?thesis using b a caps xs' lh mh by auto
  qed
qed


lemma header_at_append:
  assumes len: "length pat + 2 \<le> length s"
  shows "header_at pat (s @ y) = map_option (\<lambda>w. w @ y) (header_at pat s)"
proof (cases s)
  case Nil
  then show ?thesis using len by simp
next
  case (Cons c t)
  then have lt: "length pat \<le> length t" using len by simp
  show ?thesis
  proof (cases "match_atoms pat t")
    case None
    then show ?thesis using Cons lt by (simp add: header_at_def match_atoms_take)
  next
    case (Some u)
    from match_atoms_SomeD[OF Some] obtain h where "t = h @ u" "length h = length pat" by blast
    then have "u \<noteq> []" using len Cons by auto
    then show ?thesis using Cons lt Some
      by (cases u) (auto simp: header_at_def match_atoms_take)
  qed
qed

lemma section_at_None_append:
  "length pat + 2 \<le> length s \<Longrightarrow> section_at pat s = None \<Longrightarrow> section_at pat (s @ y) = None"
  by (auto simp: section_at_def header_at_append split: option.splits)

lemma find_section_NoneD: "find_section pat (x # s) = None \<Longrightarrow>
   section_at pat (x # s) = None \<and> find_section pat s = None"
  by (auto split: option.splits)

lemma find_section_at:
  assumes "find_section pat (b @ CHR ''['' # h) = None"
    and "length h = length pat" and "\<forall>x. match_atoms pat (h @ x) = Some x"
    and "CHR ''['' \<notin> set g" and "a = [] \<or> hd a = CHR ''[''"
  shows "find_section pat (b @ CHR ''['' # h @ CHR '']'' # g @ a)
           = Some (b, CHR ''['' # h @ CHR '']'' # g, [g], a)"
  using assms(1)
proof (induction b)
  case Nil
  have tw: "takeWhile (\<lambda>x. x \<noteq> CHR ''['') (g @ a) = g"
    using assms(4,5) by (cases a) (auto simp: takeWhile_append)
  have dw: "dropWhile (\<lambda>x. x \<noteq> CHR ''['') (g @ a) = a"
    using assms(4,5) by (cases a) (auto simp: dropWhile_append)
  have "section_at pat (CHR ''['' # h @ CHR '']'' # g @ a) = Some (g, a)"
    using header_at_I[OF assms(3), of "g @ a"] tw dw by (simp add: section_at_def)
  then show ?case by simp
next
  case (Cons x b)
  from find_section_NoneD[of pat x "b @ CHR ''['' # h"] Cons.prems
  have sa: "section_at pat (x # b @ CHR ''['' # h) = None"
    and fs: "find_section pat (b @ CHR ''['' # h) = None" by auto
  have "section_at pat ((x # b @ CHR ''['' # h) @ (CHR '']'' # g @ a)) = None"
    by (rule section_at_None_append[OF _ sa]) (simp add: assms(2))
  then show ?case using Cons.IH[OF fs] by simp
qed

lemma match_atoms_Lit_self [simp]: "match_atoms (map Lit n) (n @ r) = Some r"
  by (simp add: match_atoms_Lit)

lemma header_at_Lit: "header_at (map Lit n) s = Some w \<longleftrightarrow> s = CHR ''['' # n @ CHR '']'' # w"
  by (auto simp: header_at_def match_atoms_Lit split: list.splits option.splits)


lemma section_at_Lit_prefix:
  "section_at (map Lit n) s \<noteq> None \<longleftrightarrow> take (length n + 2) s = CHR ''['' # n @ [CHR '']'']"
proof
  assume "section_at (map Lit n) s \<noteq> None"
  then obtain w where "header_at (map Lit n) s = Some w"
    by (auto simp: section_at_def split: option.splits)
  then show "take (length n + 2) s = CHR ''['' # n @ [CHR '']'']" by (simp add: header_at_Lit)
next
  assume t: "take (length n + 2) s = CHR ''['' # n @ [CHR '']'']"
  have "s = take (length n + 2) s @ drop (length n + 2) s" by simp
  then have "s = (CHR ''['' # n @ [CHR '']'']) @ drop (length n + 2) s" using t by metis
  then have "s = CHR ''['' # n @ CHR '']'' # drop (length n + 2) s" by simp
  then have "header_at (map Lit n) s = Some (drop (length n + 2) s)" by (simp only: header_at_Lit)
  then show "section_at (map Lit n) s \<noteq> None" by (simp add: section_at_def)
qed

lemma find_section_Lit_None:
  "find_section (map Lit n) c = None \<longleftrightarrow> \<not> js_includes c (CHR ''['' # n @ [CHR '']''])"
proof (induction c)
  case Nil
  then show ?case by simp
next
  case (Cons x c)
  have "find_section (map Lit n) (x # c) = None \<longleftrightarrow>
        section_at (map Lit n) (x # c) = None \<and> find_section (map Lit n) c = None"
    by (auto split: option.splits)
  then show ?case using Cons.IH section_at_Lit_prefix[of n "x # c"] by auto
qed

lemma expand_plain_Cons: "c \<noteq> CHR ''$'' \<Longrightarrow> expand caps m b a (c # t) = c # expand caps m b a t"
  by (cases t) auto

lemma expand_plain_append:
  "CHR ''$'' \<notin> set p \<Longrightarrow> expand caps m b a (p @ t) = p @ expand caps m b a t"
  by (induction p) (auto simp: expand_plain_Cons)

lemma expand_plain: "CHR ''$'' \<notin> set t \<Longrightarrow> expand caps m b a t = t"
  using expand_plain_append[of t caps m b a "[]"] by simp





lemma compile_literal: "literal n \<Longrightarrow> compile d n = Some (map Lit n)"
  by (induction n) (auto simp: literal_def syntax_character_def)

lemma literal_no_bracket: "literal n \<Longrightarrow> CHR ''['' \<notin> set n \<and> CHR '']'' \<notin> set n \<and> CHR ''.'' \<notin> set n \<and> CHR ''$'' \<notin> set n"
  by (induction n) (auto simp: literal_def syntax_character_def)

lemma js_includes_skip:
  "CHR ''['' \<notin> set u \<Longrightarrow> js_includes (u @ r) (CHR ''['' # h) = js_includes r (CHR ''['' # h)"
  by (induction u) auto

lemma headers_closed_suffix: "headers_closed n (u @ r) \<Longrightarrow> headers_closed n r"
  by (induction u) auto

lemma nested_at_LitD:
  assumes "nested_at (map Lit n) s = Some (g1, g2, r)"
  shows "\<exists>w. s = CHR ''['' # n @ CHR ''.'' # w \<and> CHR '']'' \<in> set w \<and>
          g1 = takeWhile (\<lambda>x. x \<noteq> CHR '']'') w \<and>
          g2 = takeWhile (\<lambda>x. x \<noteq> CHR ''['') (tl (dropWhile (\<lambda>x. x \<noteq> CHR '']'') w)) \<and>
          r = dropWhile (\<lambda>x. x \<noteq> CHR ''['') (tl (dropWhile (\<lambda>x. x \<noteq> CHR '']'') w))"
proof -
  from assms obtain t u w e r0 where s: "s = CHR ''['' # t"
    and m: "match_atoms (map Lit n) t = Some u"
    and u: "u = CHR ''.'' # w" and d: "dropWhile (\<lambda>x. x \<noteq> CHR '']'') w = e # r0"
    and g1: "g1 = takeWhile (\<lambda>x. x \<noteq> CHR '']'') w"
    and g2: "g2 = takeWhile (\<lambda>x. x \<noteq> CHR ''['') r0"
    and r: "r = dropWhile (\<lambda>x. x \<noteq> CHR ''['') r0"
    by (auto simp: nested_at_def split: list.splits if_splits option.splits)
  have t: "t = n @ u" using m by (simp add: match_atoms_Lit)
  have "dropWhile (\<lambda>x. x \<noteq> CHR '']'') w \<noteq> []" using d by simp
  then have i: "CHR '']'' \<in> set w" by (auto simp: dropWhile_eq_Nil_conv)
  have "s = CHR ''['' # n @ CHR ''.'' # w" using s t u by simp
  moreover have "tl (dropWhile (\<lambda>x. x \<noteq> CHR '']'') w) = r0" using d by simp
  ultimately show ?thesis using i g1 g2 r by (intro exI[of _ w]) simp
qed

lemma nested_at_LitI:
  assumes "CHR '']'' \<in> set w"
  shows "nested_at (map Lit n) (CHR ''['' # n @ CHR ''.'' # w) =
     Some (takeWhile (\<lambda>x. x \<noteq> CHR '']'') w,
           takeWhile (\<lambda>x. x \<noteq> CHR ''['') (tl (dropWhile (\<lambda>x. x \<noteq> CHR '']'') w)),
           dropWhile (\<lambda>x. x \<noteq> CHR ''['') (tl (dropWhile (\<lambda>x. x \<noteq> CHR '']'') w)))"
proof -
  from assms have "dropWhile (\<lambda>x. x \<noteq> CHR '']'') w \<noteq> []" by (simp add: dropWhile_eq_Nil_conv)
  then obtain e r0 where d: "dropWhile (\<lambda>x. x \<noteq> CHR '']'') w = e # r0"
    by (cases "dropWhile (\<lambda>x. x \<noteq> CHR '']'') w") auto
  show ?thesis using d by (simp add: nested_at_def)
qed

lemma takeWhile_stop: "c \<notin> set k \<Longrightarrow> takeWhile (\<lambda>x. x \<noteq> c) (k @ c # r) = k"
  by (induction k) auto

lemma dropWhile_stop: "c \<notin> set k \<Longrightarrow> dropWhile (\<lambda>x. x \<noteq> c) (k @ c # r) = c # r"
  by (induction k) auto

lemma take_prefixD: "take (length H) s = H \<Longrightarrow> \<exists>r. s = H @ r"
  by (metis append_take_drop_id)

lemma nested_at_Lit_header:
  assumes "CHR '']'' \<notin> set k"
  shows "\<exists>g2 r. nested_at (map Lit n) (CHR ''['' # n @ CHR ''.'' # k @ CHR '']'' # rest) = Some (k, g2, r)"
proof -
  have "CHR '']'' \<in> set (k @ CHR '']'' # rest)" by simp
  moreover have "takeWhile (\<lambda>x. x \<noteq> CHR '']'') (k @ CHR '']'' # rest) = k"
    using assms by (rule takeWhile_stop)
  ultimately show ?thesis
    using nested_at_LitI[of "k @ CHR '']'' # rest" n] by simp
qed

lemma nested_scan_finds:
  assumes k: "CHR '']'' \<notin> set k" and n: "CHR ''['' \<notin> set n"
  shows "headers_closed n c \<Longrightarrow> js_includes c (CHR ''['' # n @ CHR ''.'' # k @ [CHR '']'']) \<Longrightarrow>
         k \<in> fst ` set (nested_matches (map Lit n) c)"
proof (induction "map Lit n" c rule: nested_matches.induct)
  case 1
  then show ?case by simp
next
  case (2 x s)
  let ?H = "CHR ''['' # n @ CHR ''.'' # k @ [CHR '']'']"
  note IHnone = 2(1) and IHsome = 2(2) and hc = 2(3) and inc = 2(4)
  show ?case
  proof (cases "take (length ?H) (x # s) = ?H")
    case True
    from take_prefixD[OF True] obtain rest where "x # s = ?H @ rest" by blast
    then have e: "x # s = CHR ''['' # n @ CHR ''.'' # k @ CHR '']'' # rest" by simp
    from nested_at_Lit_header[OF k, of n rest] obtain g2 r where
      "nested_at (map Lit n) (x # s) = Some (k, g2, r)" unfolding e by blast
    then show ?thesis by simp
  next
    case nH: False
    then have incs: "js_includes s ?H" using inc by auto
    have hcs: "headers_closed n s" using hc by simp
    show ?thesis
    proof (cases "nested_at (map Lit n) (x # s)")
      case None
      then show ?thesis using IHnone[OF None hcs incs] by simp
    next
      case (Some t)
      obtain g1 g2 r where t: "t = (g1, g2, r)" by (cases t)
      from Some t nested_at_LitD[of n "x # s" g1 g2 r] obtain w where
        xs: "x # s = CHR ''['' # n @ CHR ''.'' # w" and iw: "CHR '']'' \<in> set w"
        and g1: "g1 = takeWhile (\<lambda>x. x \<noteq> CHR '']'') w"
        and g2: "g2 = takeWhile (\<lambda>x. x \<noteq> CHR ''['') (tl (dropWhile (\<lambda>x. x \<noteq> CHR '']'') w))"
        and r: "r = dropWhile (\<lambda>x. x \<noteq> CHR ''['') (tl (dropWhile (\<lambda>x. x \<noteq> CHR '']'') w))"
        by auto
      let ?P = "\<lambda>x. x \<noteq> CHR ''['' \<and> x \<noteq> CHR '']''"
      have tk: "take (length n + 2) (x # s) = CHR ''['' # n @ ''.''" using xs by simp
      have dr: "drop (length n + 2) (x # s) = w" using xs by simp
      have dne: "dropWhile ?P w \<noteq> []" using iw by (auto simp: dropWhile_eq_Nil_conv)
      then obtain d rr where d: "dropWhile ?P w = d # rr" by (cases "dropWhile ?P w") auto
      have dd: "d = CHR '']''" using hc tk dr d by simp
      define p where "p = takeWhile ?P w"
      have "takeWhile ?P w @ dropWhile ?P w = w" by simp
      then have w1: "w = p @ CHR '']'' # rr" unfolding p_def d dd by simp
      have nb: "CHR ''['' \<notin> set p" "CHR '']'' \<notin> set p"
        unfolding p_def by (auto dest: set_takeWhileD)
      have g1': "g1 = p"
        unfolding g1 w1 using nb(2) by (rule takeWhile_stop)
      have dw: "dropWhile (\<lambda>x. x \<noteq> CHR '']'') w = CHR '']'' # rr"
        unfolding w1 using nb(2) by (rule dropWhile_stop)
      have rr: "rr = g2 @ r" unfolding g2 r dw by simp
      have w2: "w = g1 @ CHR '']'' # g2 @ r" unfolding g1' rr[symmetric] by (rule w1)
      have s: "s = (n @ CHR ''.'' # g1 @ CHR '']'' # g2) @ r" using xs unfolding w2 by simp
      have "CHR ''['' \<notin> set g2" unfolding g2 by (auto dest: set_takeWhileD)
      then have "CHR ''['' \<notin> set (n @ CHR ''.'' # g1 @ CHR '']'' # g2)"
        using n nb g1' by simp
      from js_includes_skip[OF this, of r] incs have inr: "js_includes r ?H" unfolding s by simp
      from hcs have "headers_closed n ((n @ CHR ''.'' # g1 @ CHR '']'' # g2) @ r)" unfolding s .
      then have "headers_closed n r" by (rule headers_closed_suffix)
      from IHsome[OF Some _ _ this inr, of g1 "(g2, r)" g2] t
      have "k \<in> fst ` set (nested_matches (map Lit n) r)" by simp
      then show ?thesis using Some t by simp
    qed
  qed
qed

lemma obj_set_map_of:
  "map_of (obj_set obj k v) = (if k = ''__proto__'' then map_of obj else (map_of obj)(k \<mapsto> v))"
  by (induction obj k v rule: obj_set.induct) (auto simp: fun_eq_iff)

lemma obj_set_Nil: "obj_set obj k v = [] \<longleftrightarrow> obj = [] \<and> k = ''__proto__''"
  by (cases obj) (auto split: if_splits)

lemma collect_fold_Nil:
  "foldl (\<lambda>obj (g1, g2). obj_set obj g1 (js_trim g2)) obj ms = [] \<longleftrightarrow>
     obj = [] \<and> (\<forall>x \<in> fst ` set ms. x = ''__proto__'')"
  by (induction ms arbitrary: obj) (auto simp: obj_set_Nil)

lemma collect_fold_map_of:
  "map_of (foldl (\<lambda>obj (g1, g2). obj_set obj g1 (js_trim g2)) obj ms) x =
     (if x = ''__proto__'' then map_of obj x
      else (case map_of (rev ms) x of Some g \<Rightarrow> Some (js_trim g) | None \<Rightarrow> map_of obj x))"
proof (induction ms arbitrary: obj)
  case Nil
  then show ?case by simp
next
  case (Cons p ms)
  obtain g1 g2 where p: "p = (g1, g2)" by (cases p)
  show ?case
    unfolding p using Cons.IH[of "obj_set obj g1 (js_trim g2)"]
    by (auto simp: obj_set_map_of map_add_def split: option.splits)
qed

lemma collect_nested_Nil:
  "collect_nested ms = [] \<longleftrightarrow> (\<forall>x \<in> fst ` set ms. x = ''__proto__'')"
  unfolding collect_nested_def by (simp add: collect_fold_Nil)

lemma collect_nested_map_of:
  "map_of (collect_nested ms) x =
     (if x = ''__proto__'' then None else map_option js_trim (map_of (rev ms) x))"
  unfolding collect_nested_def by (simp add: collect_fold_map_of split: option.splits)

lemma compile_props:
  "compile d name = Some pat \<Longrightarrow>
     length pat = length name \<and> CHR '']'' \<notin> set name \<and> CHR ''['' \<notin> set name \<and>
     CHR ''$'' \<notin> set name \<and> (\<forall>r. match_atoms pat (name @ r) = Some r)"
proof (induction name arbitrary: pat)
  case Nil
  then show ?case by simp
next
  case (Cons c cs)
  from Cons.prems obtain as where as: "compile d cs = Some as"
    by (auto split: option.splits)
  note ih = Cons.IH[OF as]
  show ?case
  proof (cases "c = CHR ''.''")
    case True
    then have "pat = Dot d # as" using Cons.prems as by simp
    then show ?thesis using ih True by (simp add: is_line_terminator_def)
  next
    case False
    then have ns: "\<not> syntax_character c" and p: "pat = Lit c # as"
      using Cons.prems as by (auto split: if_splits)
    from ns have "c \<noteq> CHR '']''" "c \<noteq> CHR ''[''" "c \<noteq> CHR ''$''"
      by (auto simp: syntax_character_def)
    then show ?thesis using ih p by simp
  qed
qed

lemma header_at_need:
  assumes "header_at pat s = Some w"
  shows "length pat + 2 \<le> length s \<and> s ! (length pat + 1) = CHR '']''"
proof -
  from header_at_SomeD[OF assms] obtain h where s: "s = CHR ''['' # h @ CHR '']'' # w"
    and lh: "length h = length pat" by blast
  have "s ! (length pat + 1) = (h @ CHR '']'' # w) ! length h" unfolding s lh[symmetric] by simp
  also have "\<dots> = CHR '']''" by (simp add: nth_append)
  finally show ?thesis using s lh by simp
qed

lemma header_short_None:
  assumes "length b \<le> length pat" and "CHR '']'' \<notin> set name" and "length name = length pat"
  shows "header_at pat (x # b @ CHR ''['' # name @ CHR '']'' # w) = None"
proof (rule ccontr)
  let ?s = "x # b @ CHR ''['' # name @ CHR '']'' # w"
  assume "header_at pat ?s \<noteq> None"
  then obtain u where "header_at pat ?s = Some u" by auto
  from header_at_need[OF this] have e: "?s ! (length pat + 1) = CHR '']''" by simp
  have "?s ! (length pat + 1) = (b @ CHR ''['' # name @ CHR '']'' # w) ! length pat" by simp
  also have "\<dots> = (CHR ''['' # name @ CHR '']'' # w) ! (length pat - length b)"
    using assms(1) by (simp add: nth_append)
  finally have e2: "(CHR ''['' # name @ CHR '']'' # w) ! (length pat - length b) = CHR '']''"
    using e by simp
  show False
  proof (cases "length pat - length b")
    case 0
    then show ?thesis using e2 by simp
  next
    case (Suc j)
    then have j: "j < length name" using assms(3) by linarith
    have "(CHR ''['' # name @ CHR '']'' # w) ! Suc j = name ! j" using j by (simp add: nth_append)
    then have "name ! j = CHR '']''" using e2 Suc by simp
    then show ?thesis using assms(2) j nth_mem by metis
  qed
qed

lemma section_at_None_iff: "section_at pat s = None \<longleftrightarrow> header_at pat s = None"
  by (simp add: section_at_def split: option.splits)

lemma find_section_refind:
  assumes "find_section pat b = None"
    and "length name = length pat" and "CHR '']'' \<notin> set name"
    and "\<forall>r. match_atoms pat (name @ r) = Some r"
  shows "find_section pat (b @ CHR ''['' # name @ CHR '']'' # w)
           = Some (b, CHR ''['' # name @ CHR '']'' # takeWhile (\<lambda>x. x \<noteq> CHR ''['') w,
                   [takeWhile (\<lambda>x. x \<noteq> CHR ''['') w], dropWhile (\<lambda>x. x \<noteq> CHR ''['') w)"
  using assms(1)
proof (induction b)
  case Nil
  let ?g = "takeWhile (\<lambda>x. x \<noteq> CHR ''['') w" and ?a = "dropWhile (\<lambda>x. x \<noteq> CHR ''['') w"
  have "section_at pat (CHR ''['' # name @ CHR '']'' # w) = Some (?g, ?a)"
    using header_at_I[OF assms(4), of w] by (simp add: section_at_def)
  moreover have "length (CHR ''['' # name @ CHR '']'' # w) - length ?a
      = length (CHR ''['' # name @ CHR '']'' # ?g)"
  proof -
    have "length w = length ?g + length ?a"
      by (metis length_append takeWhile_dropWhile_id)
    then show ?thesis by simp
  qed
  moreover have "take (length (CHR ''['' # name @ CHR '']'' # ?g)) (CHR ''['' # name @ CHR '']'' # w)
      = CHR ''['' # name @ CHR '']'' # ?g"
  proof -
    have "CHR ''['' # name @ CHR '']'' # w = (CHR ''['' # name @ CHR '']'' # ?g) @ ?a" by simp
    then show ?thesis by (metis append_eq_conv_conj)
  qed
  ultimately show ?case by simp
next
  case (Cons x b)
  from find_section_NoneD[OF Cons.prems]
  have sa: "section_at pat (x # b) = None" and fs: "find_section pat b = None" by auto
  have "header_at pat (x # b @ CHR ''['' # name @ CHR '']'' # w) = None"
  proof (cases "length pat + 2 \<le> length (x # b)")
    case True
    from header_at_append[OF True, of "CHR ''['' # name @ CHR '']'' # w"] sa
    show ?thesis by (simp add: section_at_None_iff)
  next
    case False
    then have "length b \<le> length pat" by simp
    then show ?thesis using assms(3,2) by (rule header_short_None)
  qed
  then have "section_at pat (x # b @ CHR ''['' # name @ CHR '']'' # w) = None"
    by (simp add: section_at_None_iff)
  then show ?case using Cons.IH[OF fs] by simp
qed

lemma find_section_prefix_None:
  "find_section pat c = Some (b, m, caps, a) \<Longrightarrow> find_section pat b = None"
proof (induction c arbitrary: b)
  case Nil
  then show ?case by simp
next
  case (Cons x s)
  show ?case
  proof (cases "section_at pat (x # s)")
    case (Some gr)
    then have "b = []" using Cons.prems by (auto split: prod.splits)
    then show ?thesis by simp
  next
    case None
    with Cons.prems obtain b' where f: "find_section pat s = Some (b', m, caps, a)"
      and b: "b = x # b'" by (auto split: option.splits)
    from find_section_SomeD[OF f] have s: "s = b' @ m @ a" by blast
    have "header_at pat (x # b') = None"
    proof (rule ccontr)
      assume "header_at pat (x # b') \<noteq> None"
      then obtain u where u: "header_at pat (x # b') = Some u" by auto
      from header_at_need[OF u] have "length pat + 2 \<le> length (x # b')" by simp
      from header_at_append[OF this, of "m @ a"] u
      have "header_at pat (x # s) \<noteq> None" unfolding s by simp
      then show False using None by (simp add: section_at_None_iff)
    qed
    then have "section_at pat (x # b') = None" by (simp add: section_at_None_iff)
    then show ?thesis using Cons.IH[OF f] b by simp
  qed
qed

lemma find_section_snoc_None:
  assumes "x \<noteq> CHR '']''"
  shows "find_section pat c = None \<Longrightarrow> find_section pat (c @ [x]) = None"
proof (induction c)
  case Nil
  have "header_at pat [x] = None"
  proof (rule ccontr)
    assume "header_at pat [x] \<noteq> None"
    then obtain u where "header_at pat [x] = Some u" by auto
    from header_at_need[OF this] show False by simp
  qed
  then have "section_at pat [x] = None" by (simp add: section_at_None_iff)
  then show ?case by simp
next
  case (Cons y c)
  from find_section_NoneD[OF Cons.prems]
  have sa: "section_at pat (y # c) = None" and fs: "find_section pat c = None" by auto
  have "header_at pat ((y # c) @ [x]) = None"
  proof (cases "length pat + 2 \<le> length (y # c)")
    case True
    from header_at_append[OF True, of "[x]"] sa show ?thesis by (simp add: section_at_None_iff)
  next
    case False
    show ?thesis
    proof (rule ccontr)
      assume "header_at pat ((y # c) @ [x]) \<noteq> None"
      then obtain u where "header_at pat ((y # c) @ [x]) = Some u" by auto
      from header_at_need[OF this]
      have l: "length pat + 2 \<le> length ((y # c) @ [x])"
        and e: "((y # c) @ [x]) ! (length pat + 1) = CHR '']''" by auto
      from l False have "length pat + 1 = length (y # c)" by simp
      then have "((y # c) @ [x]) ! (length pat + 1) = x" by (metis nth_append_length)
      then show False using e assms by simp
    qed
  qed
  then have "section_at pat ((y # c) @ [x]) = None" by (simp add: section_at_None_iff)
  then show ?case using Cons.IH[OF fs] by simp
qed

lemma key_at_suffix: "key_at kp s = Some r \<Longrightarrow> \<exists>m. s = m @ r"
proof -
  assume h: "key_at kp s = Some r"
  then obtain t c u where m: "match_atoms kp s = Some t" and d: "dropWhile is_ws t = c # u"
    and r: "r = dropWhile (\<lambda>x. \<not> is_line_terminator x) (dropWhile is_ws u)"
    by (auto simp: key_at_def split: option.splits list.splits if_splits)
  from match_atoms_SomeD[OF m] obtain h where 1: "s = h @ t" by blast
  have 2: "t = takeWhile is_ws t @ c # u" using d by (metis takeWhile_dropWhile_id)
  have 3: "u = takeWhile is_ws u @ dropWhile is_ws u" by simp
  have 4: "dropWhile is_ws u = takeWhile (\<lambda>x. \<not> is_line_terminator x) (dropWhile is_ws u) @ r"
    unfolding r by simp
  have "s = (h @ takeWhile is_ws t @ c # takeWhile is_ws u @
             takeWhile (\<lambda>x. \<not> is_line_terminator x) (dropWhile is_ws u)) @ r"
    using 1 2 3 4 by (metis append.assoc append_Cons)
  then show ?thesis by blast
qed

lemma find_key_SomeD:
  "find_key kp g = Some (kb, km, caps, ka) \<Longrightarrow>
     g = kb @ km @ ka \<and> caps = [] \<and> key_at kp (km @ ka) = Some ka"
proof (induction g arbitrary: kb)
  case Nil
  then show ?case by simp
next
  case (Cons x s)
  show ?case
  proof (cases "key_at kp (x # s)")
    case None
    with Cons.prems obtain b' where f: "find_key kp s = Some (b', km, caps, ka)" and b: "kb = x # b'"
      by (auto split: option.splits)
    from Cons.IH[OF f] show ?thesis using b by simp
  next
    case (Some r)
    with Cons.prems have kb: "kb = []" and ka: "ka = r" and caps: "caps = []"
      and km: "km = take (length (x # s) - length r) (x # s)" by auto
    from key_at_suffix[OF Some] obtain m where e: "x # s = m @ r" by blast
    then have "km = m" unfolding km by simp
    then show ?thesis using kb ka caps e Some by simp
  qed
qed

lemma patch_section_plain:
  assumes "literal key" and "CHR ''$'' \<notin> set name" and "CHR ''$'' \<notin> set fv"
    and "CHR ''$'' \<notin> set g"
  shows "patch_section name (b, m, [g], a) key fv c
           = Some (b @ CHR ''['' # name @ CHR '']'' # patched_span key fv g @ a)"
proof -
  have ck: "compile False key = Some (map Lit key)" using assms(1) by (rule compile_literal)
  have kd: "CHR ''$'' \<notin> set key" using literal_no_bracket[OF assms(1)] by simp
  show ?thesis
  proof (cases "find_key (map Lit key) g")
    case None
    have "CHR ''$'' \<notin> set (''['' @ name @ '']'' @ g @ ''\<newline>'' @ key @ '' = '' @ fv)"
      using assms kd by simp
    from expand_plain[OF this] show ?thesis
      using None ck by (simp add: patch_section_def replace_first_def patched_span_def)
  next
    case (Some r)
    obtain kb km caps ka where r: "r = (kb, km, caps, ka)" by (cases r)
    from find_key_SomeD[OF Some[unfolded r]] have g: "g = kb @ km @ ka" by simp
    have 1: "expand caps km kb ka (key @ '' = '' @ fv) = key @ '' = '' @ fv"
      by (rule expand_plain) (use assms kd in simp)
    have "CHR ''$'' \<notin> set (''['' @ name @ '']'' @ kb @ (key @ '' = '' @ fv) @ ka)"
      using assms kd g by simp
    from expand_plain[OF this] show ?thesis
      using Some r ck 1 by (simp add: patch_section_def replace_first_def patched_span_def)
  qed
qed



lemma takeWhile_span:
  "CHR ''['' \<notin> set g \<Longrightarrow> a = [] \<or> hd a = CHR ''['' \<Longrightarrow>
     takeWhile (\<lambda>x. x \<noteq> CHR ''['') (g @ a) = g \<and> dropWhile (\<lambda>x. x \<noteq> CHR ''['') (g @ a) = a"
  by (cases a) (auto simp: takeWhile_append dropWhile_append)

lemma compile_append:
  "compile d u = Some pu \<Longrightarrow> compile d w = Some pw \<Longrightarrow> compile d (u @ w) = Some (pu @ pw)"
  by (induction u arbitrary: pu) (auto split: option.splits if_splits)

lemma compile_nested_name:
  assumes "literal s" and "literal t"
  shows "compile d (s @ ''.'' @ t) = Some (map Lit s @ Dot d # map Lit t)"
proof -
  have "compile d (''.'' @ t) = Some (Dot d # map Lit t)"
    using compile_literal[OF assms(2), of d] by simp
  from compile_append[OF compile_literal[OF assms(1), of d] this] show ?thesis by simp
qed

lemma updateTomlValue_two:
  assumes "literal s" and "literal key"
  shows "updateTomlValue c (s @ ''.'' @ key) v =
     (case find_section (map Lit s) c of
        Some mt \<Rightarrow> patch_section s mt key (formatValue v) c
      | None \<Rightarrow>
          if foundMatch (map Lit s) key c then Some c
          else Some (c @ ''\<newline>['' @ s @ '']\<newline>'' @ key @ '' = '' @ formatValue v @ ''\<newline>''))"
proof -
  have "split_dot (s @ ''.'' @ key) = [s, key]"
    using literal_no_bracket[OF assms(1)] literal_no_bracket[OF assms(2)]
    by (intro split_dot_two) auto
  then show ?thesis
    using compile_literal[OF assms(1)]
    by (simp add: updateTomlValue_def Let_def split: option.splits)
qed

lemma updateTomlValue_three:
  assumes "literal s" and "literal t" and "literal key"
  shows "updateTomlValue c (s @ ''.'' @ t @ ''.'' @ key) v =
     (case find_section (map Lit s @ Dot True # map Lit t) c of
        Some mt \<Rightarrow> patch_section (s @ ''.'' @ t) mt key (formatValue v) c
      | None \<Rightarrow>
          Some (c @ ''\<newline>['' @ (s @ ''.'' @ t) @ '']\<newline>'' @ key @ '' = '' @ formatValue v @ ''\<newline>''))"
proof -
  have "split_dot (s @ ''.'' @ t @ ''.'' @ key) = [s, t, key]"
    using literal_no_bracket[OF assms(1)] literal_no_bracket[OF assms(2)]
      literal_no_bracket[OF assms(3)]
    by (intro split_dot_three) auto
  then show ?thesis
    using compile_nested_name[OF assms(1,2), of True]
    by (simp add: updateTomlValue_def Let_def split: option.splits)
qed

lemma section_span_found:
  "compile True name = Some pat \<Longrightarrow> find_section pat c = Some (b, m, [g], a) \<Longrightarrow>
   section_span name c = g"
  by (simp add: section_span_def)





lemma formatValue_cases: "formatValue v = v \<or> formatValue v = CHR 0x22 # v @ [CHR 0x22]"
  by (simp add: formatValue_def quoted_def)

lemma formatValue_avoids:
  "c \<noteq> CHR 0x22 \<Longrightarrow> c \<notin> set v \<Longrightarrow> c \<notin> set (formatValue v)"
  using formatValue_cases[of v] by auto

lemma is_ws_eq [simp]: "\<not> is_ws (CHR ''='')"
  by (simp add: is_ws_def)

lemma dropWhile_all: "\<forall>c\<in>set w. P c \<Longrightarrow> dropWhile P (w @ r) = dropWhile P r"
  by (induction w) auto

lemma key_at_LitI:
  assumes "\<forall>c\<in>set w. is_ws c"
  shows "key_at (map Lit k) (k @ w @ CHR ''='' # u)
           = Some (dropWhile (\<lambda>x. \<not> is_line_terminator x) (dropWhile is_ws u))"
proof -
  have "dropWhile is_ws (w @ CHR ''='' # u) = CHR ''='' # u"
    using dropWhile_all[OF assms, of "CHR ''='' # u"] by simp
  then show ?thesis by (simp add: key_at_def)
qed

lemma key_at_LitD:
  assumes "key_at (map Lit k) s \<noteq> None"
  shows "\<exists>w u. s = k @ w @ CHR ''='' # u \<and> (\<forall>c\<in>set w. is_ws c)"
proof -
  from assms obtain t c u where m: "match_atoms (map Lit k) s = Some t"
    and d: "dropWhile is_ws t = c # u" and c: "c = CHR ''=''"
    by (auto simp: key_at_def split: option.splits list.splits if_splits)
  have s: "s = k @ t" using m by (simp add: match_atoms_Lit)
  have "takeWhile is_ws t @ dropWhile is_ws t = t" by simp
  then have t: "t = takeWhile is_ws t @ CHR ''='' # u" unfolding d c by simp
  have "\<forall>c\<in>set (takeWhile is_ws t). is_ws c" by (auto dest: set_takeWhileD)
  then show ?thesis using s t by metis
qed

lemma key_at_prefix:
  assumes ne: "key_at (map Lit k) (pre @ t1) \<noteq> None"
    and len: "length k < length pre" and last: "\<not> is_ws (last pre)"
  shows "\<exists>w z. (\<forall>c\<in>set w. is_ws c) \<and> pre = k @ w @ CHR ''='' # z"
proof -
  from key_at_LitD[OF ne] obtain w u where e: "pre @ t1 = k @ w @ CHR ''='' # u"
    and w: "\<forall>c\<in>set w. is_ws c" by blast
  have pne: "pre \<noteq> []" using len by auto
  from e have "pre @ t1 = (k @ w) @ (CHR ''='' # u)" by simp
  then obtain us where
    "(pre = (k @ w) @ us \<and> us @ t1 = CHR ''='' # u) \<or> (pre @ us = k @ w \<and> t1 = us @ CHR ''='' # u)"
    unfolding append_eq_append_conv2 by blast
  then have "\<exists>z. pre = k @ w @ CHR ''='' # z"
  proof
    assume a: "pre = (k @ w) @ us \<and> us @ t1 = CHR ''='' # u"
    show ?thesis
    proof (cases us)
      case Nil
      then have p: "pre = k @ w" using a by simp
      then have "w \<noteq> []" using len by auto
      then have "last pre \<in> set w" unfolding p by simp
      then show ?thesis using w last by blast
    next
      case (Cons y ys)
      then have "y = CHR ''=''" using a by simp
      then show ?thesis using a Cons by simp
    qed
  next
    assume a: "pre @ us = k @ w \<and> t1 = us @ CHR ''='' # u"
    then obtain vs where "(pre = k @ vs \<and> vs @ us = w) \<or> (pre @ vs = k \<and> us = vs @ w)"
      unfolding append_eq_append_conv2 by blast
    then show ?thesis
    proof
      assume b: "pre = k @ vs \<and> vs @ us = w"
      then have "vs \<noteq> []" using len by auto
      then have "last pre \<in> set vs" using b by simp
      then have "last pre \<in> set w" using b by auto
      then show ?thesis using w last by blast
    next
      assume b: "pre @ vs = k \<and> us = vs @ w"
      then have "length pre \<le> length k" by (metis length_append le_add1)
      then show ?thesis using len by simp
    qed
  qed
  then show ?thesis using w by blast
qed

lemma key_at_stable:
  assumes "key_at (map Lit k) (pre @ t1) \<noteq> None"
    and "length k < length pre" and "\<not> is_ws (last pre)"
  shows "key_at (map Lit k) (pre @ t2) \<noteq> None"
proof -
  from key_at_prefix[OF assms] obtain w z where w: "\<forall>c\<in>set w. is_ws c"
    and "pre = k @ w @ CHR ''='' # z" by blast
  then have "pre @ t2 = k @ w @ CHR ''='' # (z @ t2)" by simp
  then show ?thesis using key_at_LitI[OF w, of k "z @ t2"] by simp
qed

lemma find_key_NoneD:
  "find_key kp (x # s) = None \<Longrightarrow> key_at kp (x # s) = None \<and> find_key kp s = None"
  by (auto split: option.splits)

lemma find_key_ConsD:
  "find_key kp (x # s) = Some (y # kb, km, caps, ka) \<Longrightarrow>
     key_at kp (x # s) = None \<and> x = y \<and> find_key kp s = Some (kb, km, caps, ka)"
  by (auto split: option.splits)


lemma find_key_here:
  "key_at kp s = Some r \<Longrightarrow> find_key kp s = Some ([], take (length s - length r) s, [], r)"
  by (cases s; cases kp) (auto simp: key_at_def split: option.splits list.splits)

lemma key_at_fresh:
  assumes nl: "\<forall>c\<in>set fv. \<not> is_line_terminator c" and nw: "\<exists>c\<in>set fv. \<not> is_ws c"
    and ka: "ka = [] \<or> is_line_terminator (hd ka)"
  shows "key_at (map Lit k) (k @ '' = '' @ fv @ ka) = Some ka"
proof -
  have 1: "dropWhile is_ws ('' '' @ fv @ ka) = dropWhile is_ws fv @ ka"
    using nw by (auto simp: is_ws_def dropWhile_append1)
  have 2: "\<forall>c\<in>set (dropWhile is_ws fv). \<not> is_line_terminator c"
    using nl by (meson set_dropWhileD)
  have 3: "dropWhile (\<lambda>x. \<not> is_line_terminator x) ka = ka"
    using ka by (cases ka) auto
  have "key_at (map Lit k) (k @ '' '' @ CHR ''='' # ('' '' @ fv @ ka))
      = Some (dropWhile (\<lambda>x. \<not> is_line_terminator x) (dropWhile is_ws ('' '' @ fv @ ka)))"
    by (rule key_at_LitI) (simp add: is_ws_def)
  also have "dropWhile (\<lambda>x. \<not> is_line_terminator x) (dropWhile is_ws ('' '' @ fv @ ka)) = ka"
    unfolding 1 using dropWhile_all[OF 2, of ka] 3 by simp
  finally show ?thesis by simp
qed

lemma find_key_fresh:
  assumes nl: "\<forall>c\<in>set fv. \<not> is_line_terminator c" and nw: "\<exists>c\<in>set fv. \<not> is_ws c"
    and ka: "ka = [] \<or> is_line_terminator (hd ka)"
  shows "find_key (map Lit k) (k @ '' = '' @ fv @ ka) = Some ([], k @ '' = '' @ fv, [], ka)"
proof -
  have "take (length ((k @ '' = '' @ fv) @ ka) - length ka) ((k @ '' = '' @ fv) @ ka)
      = k @ '' = '' @ fv"
    by (metis add_diff_cancel_right' append_eq_conv_conj length_append)
  then have "take (length (k @ '' = '' @ fv @ ka) - length ka) (k @ '' = '' @ fv @ ka)
      = k @ '' = '' @ fv"
    by simp
  then show ?thesis using find_key_here[OF key_at_fresh[OF assms, of k]] by simp
qed

lemma key_at_tail:
  assumes "key_at kp s = Some r"
  shows "r = [] \<or> is_line_terminator (hd r)"
proof -
  from assms obtain y where "r = dropWhile (\<lambda>x. \<not> is_line_terminator x) y"
    by (auto simp: key_at_def split: option.splits list.splits if_splits)
  then show ?thesis using hd_dropWhile[of "\<lambda>x. \<not> is_line_terminator x" y] by auto
qed

lemma find_key_replaced:
  assumes k: "k \<noteq> []" "\<not> is_ws (last k)"
    and nl: "\<forall>c\<in>set fv. \<not> is_line_terminator c" and nw: "\<exists>c\<in>set fv. \<not> is_ws c"
  shows "find_key (map Lit k) (kb @ km @ ka) = Some (kb, km, [], ka) \<Longrightarrow>
         key_at (map Lit k) (km @ ka) = Some ka \<Longrightarrow>
         find_key (map Lit k) (kb @ k @ '' = '' @ fv @ ka) = Some (kb, k @ '' = '' @ fv, [], ka)"
proof (induction kb)
  case Nil
  from find_key_fresh[OF nl nw key_at_tail[OF Nil(2)], of k] show ?case by simp
next
  case (Cons x kb)
  from find_key_ConsD[of "map Lit k" x "kb @ km @ ka" x kb km "[]" ka] Cons.prems(1)
  have none: "key_at (map Lit k) (x # kb @ km @ ka) = None"
    and f: "find_key (map Lit k) (kb @ km @ ka) = Some (kb, km, [], ka)" by auto
  from key_at_LitD[of k "km @ ka"] Cons.prems(2) obtain w u where
    e: "km @ ka = k @ w @ CHR ''='' # u" by auto
  have "key_at (map Lit k) ((x # kb @ k) @ ('' = '' @ fv @ ka)) = None"
  proof (rule ccontr)
    assume "key_at (map Lit k) ((x # kb @ k) @ ('' = '' @ fv @ ka)) \<noteq> None"
    from key_at_stable[OF this, of "w @ CHR ''='' # u"] k
    have "key_at (map Lit k) ((x # kb @ k) @ (w @ CHR ''='' # u)) \<noteq> None" by simp
    then show False using none e by simp
  qed
  then have "key_at (map Lit k) (x # kb @ k @ '' = '' @ fv @ ka) = None" by simp
  then show ?case using Cons.IH[OF f Cons.prems(2)] by simp
qed

lemma find_key_appended:
  assumes k: "k \<noteq> []" "\<forall>c\<in>set k. \<not> is_ws c" "CHR ''='' \<notin> set k"
    and nl: "\<forall>c\<in>set fv. \<not> is_line_terminator c" and nw: "\<exists>c\<in>set fv. \<not> is_ws c"
  shows "find_key (map Lit k) g = None \<Longrightarrow>
         find_key (map Lit k) (g @ ''\<newline>'' @ k @ '' = '' @ fv)
           = Some (g @ ''\<newline>'', k @ '' = '' @ fv, [], [])"
proof (induction g)
  case Nil
  obtain c k' where kc: "k = c # k'" using k(1) by (cases k) auto
  then have "c \<noteq> CHR ''\<newline>''" using k(2) by (auto simp: is_ws_def)
  then have "key_at (map Lit k) (CHR ''\<newline>'' # k @ '' = '' @ fv) = None"
    unfolding kc by (simp add: key_at_def)
  moreover have "find_key (map Lit k) (k @ '' = '' @ fv) = Some ([], k @ '' = '' @ fv, [], [])"
    using find_key_fresh[OF nl nw, of "[]" k] by simp
  ultimately show ?case by simp
next
  case (Cons x g)
  from find_key_NoneD[OF Cons.prems]
  have none: "key_at (map Lit k) (x # g) = None" and f: "find_key (map Lit k) g = None" by auto
  have lk: "\<not> is_ws (last k)" using k(1,2) by simp
  have "key_at (map Lit k) ((x # g @ ''\<newline>'' @ k) @ ('' = '' @ fv)) = None"
  proof (rule ccontr)
    assume "key_at (map Lit k) ((x # g @ ''\<newline>'' @ k) @ ('' = '' @ fv)) \<noteq> None"
    from key_at_prefix[OF this] k(1) lk obtain w z where w: "\<forall>c\<in>set w. is_ws c"
      and e: "x # g @ ''\<newline>'' @ k = k @ w @ CHR ''='' # z" by auto
    then have "(x # g) @ (CHR ''\<newline>'' # k) = (k @ w) @ (CHR ''='' # z)" by simp
    then obtain us where
      "(x # g = (k @ w) @ us \<and> us @ (CHR ''\<newline>'' # k) = CHR ''='' # z) \<or>
       ((x # g) @ us = k @ w \<and> CHR ''\<newline>'' # k = us @ CHR ''='' # z)"
      unfolding append_eq_append_conv2 by blast
    then show False
    proof
      assume a: "x # g = (k @ w) @ us \<and> us @ (CHR ''\<newline>'' # k) = CHR ''='' # z"
      show False
      proof (cases us)
        case Nil
        then show ?thesis using a by simp
      next
        case (Cons y ys)
        then have "x # g = k @ w @ CHR ''='' # ys" using a by simp
        then have "key_at (map Lit k) (x # g) \<noteq> None" using key_at_LitI[OF w, of k ys] by simp
        then show ?thesis using none by simp
      qed
    next
      assume a: "(x # g) @ us = k @ w \<and> CHR ''\<newline>'' # k = us @ CHR ''='' # z"
      show False
      proof (cases us)
        case Nil
        then show ?thesis using a by simp
      next
        case (Cons y ys)
        then have "k = ys @ CHR ''='' # z" using a by simp
        then have "CHR ''='' \<in> set k" by (metis in_set_conv_decomp)
        then show ?thesis using k(3) by simp
      qed
    qed
  qed
  then have "key_at (map Lit k) (x # g @ ''\<newline>'' @ k @ '' = '' @ fv) = None" by simp
  then show ?case using Cons.IH[OF f] by simp
qed

lemma patched_span_avoids:
  assumes "x \<noteq> CHR ''\<newline>''" and "x \<noteq> CHR '' ''" and "x \<noteq> CHR ''=''"
    and "x \<notin> set key" and "x \<notin> set fv" and "x \<notin> set g"
  shows "x \<notin> set (patched_span key fv g)"
proof (cases "find_key (map Lit key) g")
  case None
  then show ?thesis using assms by (simp add: patched_span_def)
next
  case (Some r)
  obtain kb km caps ka where r: "r = (kb, km, caps, ka)" by (cases r)
  from find_key_SomeD[OF Some[unfolded r]] have "g = kb @ km @ ka" by simp
  then show ?thesis using assms Some r by (auto simp: patched_span_def)
qed

lemma patched_span_idem:
  assumes k: "k \<noteq> []" "\<forall>c\<in>set k. \<not> is_ws c" "CHR ''='' \<notin> set k"
    and nl: "\<forall>c\<in>set fv. \<not> is_line_terminator c" and nw: "\<exists>c\<in>set fv. \<not> is_ws c"
  shows "patched_span k fv (patched_span k fv g) = patched_span k fv g"
proof (cases "find_key (map Lit k) g")
  case None
  have g': "patched_span k fv g = g @ ''\<newline>'' @ k @ '' = '' @ fv"
    using None by (simp add: patched_span_def)
  from find_key_appended[OF k nl nw None]
  show ?thesis unfolding g' by (simp add: patched_span_def)
next
  case (Some r)
  obtain kb km caps ka where r: "r = (kb, km, caps, ka)" by (cases r)
  from find_key_SomeD[OF Some[unfolded r]] have g: "g = kb @ km @ ka" and caps: "caps = []"
    and ka: "key_at (map Lit k) (km @ ka) = Some ka" by auto
  have g': "patched_span k fv g = kb @ k @ '' = '' @ fv @ ka"
    using Some r by (simp add: patched_span_def)
  have lk: "\<not> is_ws (last k)" using k(1,2) by simp
  have "find_key (map Lit k) (kb @ km @ ka) = Some (kb, km, [], ka)"
    using Some r g caps by simp
  from find_key_replaced[OF k(1) lk nl nw this ka]
  show ?thesis unfolding g' by (simp add: patched_span_def)
qed

lemma idempotent_core:
  fixes name key fv pat
  defines "step \<equiv> \<lambda>c. (case find_section pat c of
                   Some mt \<Rightarrow> patch_section name mt key fv c
                 | None \<Rightarrow> Some (c @ ''\<newline>['' @ name @ '']\<newline>'' @ key @ '' = '' @ fv @ ''\<newline>''))"
  assumes cp: "compile True name = Some pat"
    and lk: "literal key"
    and k: "key \<noteq> []" "\<forall>c\<in>set key. \<not> is_ws c" "CHR ''='' \<notin> set key"
    and fb: "CHR ''['' \<notin> set fv" and fd: "CHR ''$'' \<notin> set fv"
    and nl: "\<forall>c\<in>set fv. \<not> is_line_terminator c" and nw: "\<exists>c\<in>set fv. \<not> is_ws c"
    and sp: "CHR ''$'' \<notin> set (section_span name c)"
  shows "\<exists>c1. step c = Some c1 \<and> find_section pat c1 \<noteq> None \<and> step c1 = Some c1"
proof -
  from compile_props[OF cp] have np: "length name = length pat" "CHR '']'' \<notin> set name"
    "CHR ''['' \<notin> set name" "CHR ''$'' \<notin> set name" "\<forall>r. match_atoms pat (name @ r) = Some r"
    by auto
  have kb: "CHR ''['' \<notin> set key" "CHR ''$'' \<notin> set key" using literal_no_bracket[OF lk] by auto
  have again: "\<exists>c1. step c = Some c1 \<and> find_section pat c1 \<noteq> None \<and> step c1 = Some c1"
    if c1: "step c = Some (b @ CHR ''['' # name @ CHR '']'' # g @ a)"
      and fb': "find_section pat b = None"
      and g: "CHR ''['' \<notin> set g" "CHR ''$'' \<notin> set g" "patched_span key fv g = g"
      and a: "a = [] \<or> hd a = CHR ''[''" for b g a
  proof -
    let ?c1 = "b @ CHR ''['' # name @ CHR '']'' # g @ a"
    from takeWhile_span[OF g(1) a]
    have tw: "takeWhile (\<lambda>x. x \<noteq> CHR ''['') (g @ a) = g"
      "dropWhile (\<lambda>x. x \<noteq> CHR ''['') (g @ a) = a" by auto
    from find_section_refind[OF fb' np(1,2,5), of "g @ a"]
    have f: "find_section pat ?c1 = Some (b, CHR ''['' # name @ CHR '']'' # g, [g], a)"
      unfolding tw by simp
    have "step ?c1 = Some ?c1"
      unfolding step_def f using patch_section_plain[OF lk np(4) fd g(2)] g(3) by simp
    then show ?thesis using c1 f by simp
  qed
  show ?thesis
  proof (cases "find_section pat c")
    case None
    let ?w = "''\<newline>'' @ key @ '' = '' @ fv @ ''\<newline>''"
    have c1: "step c = Some ((c @ ''\<newline>'') @ CHR ''['' # name @ CHR '']'' # ?w @ [])"
      unfolding step_def using None by simp
    have fb': "find_section pat (c @ ''\<newline>'') = None"
      using find_section_snoc_None[of "CHR ''\<newline>''" pat c] None by simp
    obtain x k' where kc: "key = x # k'" using k(1) by (cases key) auto
    then have "x \<noteq> CHR ''\<newline>''" using k(2) by (auto simp: is_ws_def)
    then have ka: "key_at (map Lit key) (CHR ''\<newline>'' # key @ '' = '' @ fv @ ''\<newline>'') = None"
      unfolding kc by (simp add: key_at_def)
    have "find_key (map Lit key) (key @ '' = '' @ fv @ ''\<newline>'')
            = Some ([], key @ '' = '' @ fv, [], ''\<newline>'')"
      by (rule find_key_fresh[OF nl nw]) (simp add: is_line_terminator_def)
    then have "find_key (map Lit key) ?w = Some (''\<newline>'', key @ '' = '' @ fv, [], ''\<newline>'')"
      using ka by simp
    then have ps: "patched_span key fv ?w = ?w" by (simp add: patched_span_def)
    have "CHR ''['' \<notin> set ?w" "CHR ''$'' \<notin> set ?w" using kb fb fd by auto
    from again[OF c1 fb' this ps] show ?thesis by simp
  next
    case (Some mt)
    obtain b m caps a where mt: "mt = (b, m, caps, a)" by (cases mt)
    from find_section_SomeD[OF Some[unfolded mt]] obtain g where caps: "caps = [g]"
      and gb: "CHR ''['' \<notin> set g" and a: "a = [] \<or> hd a = CHR ''[''" by blast
    have fs: "find_section pat c = Some (b, m, [g], a)" using Some mt caps by simp
    have gd: "CHR ''$'' \<notin> set g" using sp section_span_found[OF cp fs] by simp
    let ?g = "patched_span key fv g"
    have c1: "step c = Some (b @ CHR ''['' # name @ CHR '']'' # ?g @ a)"
      unfolding step_def using fs patch_section_plain[OF lk np(4) fd gd] by simp
    have 1: "CHR ''['' \<notin> set ?g" by (rule patched_span_avoids) (use kb fb gb in auto)
    have 2: "CHR ''$'' \<notin> set ?g" by (rule patched_span_avoids) (use kb fd gd in auto)
    from again[OF c1 find_section_prefix_None[OF fs] 1 2 patched_span_idem[OF k nl nw] a]
    show ?thesis .
  qed
qed

lemma formatValue_set: "set (formatValue v) \<subseteq> insert (CHR 0x22) (set v)"
  using formatValue_cases[of v] by auto

lemma formatValue_line:
  assumes "\<forall>c\<in>set v. \<not> is_line_terminator c"
  shows "\<forall>c\<in>set (formatValue v). \<not> is_line_terminator c"
proof -
  have "\<not> is_line_terminator (CHR 0x22)" by (simp add: is_line_terminator_def)
  then show ?thesis using assms formatValue_set[of v] by blast
qed

lemma formatValue_visible: "\<exists>c\<in>set v. \<not> is_ws c \<Longrightarrow> \<exists>c\<in>set (formatValue v). \<not> is_ws c"
  using formatValue_cases[of v] by auto












section \<open>Paths that have neither two nor three segments\<close>

text \<open>
  Claim C1, as stated, fails: a path of four segments is not a no-op. The branch for
  nested settings is taken whenever the path has more than two segments, so on the empty
  document the path \<^verbatim>\<open>a.b.c.d\<close> creates the section \<^verbatim>\<open>[a.b]\<close> with the key \<^verbatim>\<open>c\<close>.
\<close>

theorem updateTomlValue_four_segments_counterexample:
  "length (split_dot ''a.b.c.d'') = 4 \<and>
   updateTomlValue [] ''a.b.c.d'' ''v'' = Some ''\<newline>[a.b]\<newline>c = \"v\"\<newline>'' \<and>
   updateTomlValue [] ''a.b.c.d'' ''v'' \<noteq> Some []"
  by code_simp

text \<open>
  Claim C1, amended: for a path whose number of segments is neither 2 nor 3, the content
  is returned unchanged when the path has a single segment; a path of four or more
  segments is patched exactly as the three-segment path made of its first three segments.
\<close>

theorem updateTomlValue_other_arity:
  assumes "length (split_dot path) \<noteq> 2" and "length (split_dot path) \<noteq> 3"
  shows "updateTomlValue content path v =
     (if length (split_dot path) = 1 then Some content
      else updateTomlValue content
             (split_dot path ! 0 @ ''.'' @ split_dot path ! 1 @ ''.'' @ split_dot path ! 2) v)"
proof (cases "length (split_dot path) = 1")
  case True
  then show ?thesis by (simp add: updateTomlValue_def Let_def)
next
  case False
  moreover have "length (split_dot path) \<noteq> 0" using split_dot_nonempty[of path] by simp
  ultimately have len: "3 < length (split_dot path)" using assms by linarith
  obtain a b c d rest where sp: "split_dot path = a # b # c # d # rest"
    using length_gt3_conv[OF len] by blast
  have nd: "CHR ''.'' \<notin> set a" "CHR ''.'' \<notin> set b" "CHR ''.'' \<notin> set c"
    using split_dot_no_dot[of _ path] sp by auto
  have "split_dot (a @ ''.'' @ b @ ''.'' @ c) = [a, b, c]"
    using nd by (rule split_dot_three)
  then show ?thesis using False sp by (simp add: updateTomlValue_def Let_def)
qed

text \<open>
  Witness for C1 (amended): the one-segment path \<^verbatim>\<open>model\<close> leaves a document unchanged,
  and the four-segment path \<^verbatim>\<open>a.b.c.d\<close> acts as \<^verbatim>\<open>a.b.c\<close>.
\<close>

theorem updateTomlValue_other_arity_witness:
  "updateTomlValue ''[llm]'' ''model'' ''x'' = Some ''[llm]'' \<and>
   updateTomlValue ''[llm]'' ''a.b.c.d'' ''x'' = updateTomlValue ''[llm]'' ''a.b.c'' ''x''"
  using updateTomlValue_other_arity[of "''model''" "''[llm]''" "''x''"]
        updateTomlValue_other_arity[of "''a.b.c.d''" "''[llm]''" "''x''"]
  by simp

section \<open>Consequences of matching against raw text\<close>

text \<open>
  Claim C9: the key expression is not anchored on the left. Setting \<^verbatim>\<open>search.url\<close> in a
  \<^verbatim>\<open>[search]\<close> section that holds an \<^verbatim>\<open>engine_url\<close> assignment rewrites the value of
  \<^verbatim>\<open>engine_url\<close>; no line for the key \<^verbatim>\<open>url\<close> is appended.
\<close>

theorem updateTomlValue_key_suffix_rewrite:
  "updateTomlValue ''[search]\<newline>engine_url = \"https://www.google.com\"\<newline>'' ''search.url'' ''x''
     = Some ''[search]\<newline>engine_url = \"x\"\<newline>''"
  by code_simp

text \<open>
  Claim C10: the browser pass tests for \<^verbatim>\<open>timeout\<close>, \<^verbatim>\<open>retry_count\<close> and \<^verbatim>\<open>retry_delay\<close>
  against the whole document. With a \<^verbatim>\<open>[browser]\<close> section that lacks all three keys, the
  pass adds all three; with the same section followed by a \<^verbatim>\<open>[sandbox]\<close> section that
  assigns \<^verbatim>\<open>timeout = 300\<close>, it adds the two retry keys and no \<^verbatim>\<open>timeout\<close> to \<^verbatim>\<open>[browser]\<close>.
\<close>

theorem checkBrowserSettings_timeout_suppressed:
  "checkBrowserSettings (Some ''[browser]\<newline>headless = true\<newline>'') =
     Some ''[browser]\<newline>headless = true\<newline>timeout = 30000\<newline>retry_count = 3\<newline>retry_delay = 1000\<newline>'' \<and>
   checkBrowserSettings
     (Some ''[browser]\<newline>headless = true\<newline>[sandbox]\<newline>timeout = 300\<newline>'') =
     Some ''[browser]\<newline>headless = true\<newline>retry_count = 3\<newline>retry_delay = 1000\<newline>[sandbox]\<newline>timeout = 300\<newline>''"
  by code_simp

section \<open>The formatting rule\<close>



section \<open>The search defaults\<close>



section \<open>A two-segment path that names an existing nested section\<close>

text \<open>
  Claim C2, as stated, fails: the scan for nested sections reads group 1 up to the first
  closing bracket, so an unclosed \<^verbatim>\<open>[search.\<close> before the header swallows the header
  \<^verbatim>\<open>[search.custom]\<close>; the loop then finds no section named \<^verbatim>\<open>custom\<close> and a new
  \<^verbatim>\<open>[search]\<close> block is appended.
\<close>

theorem updateTomlValue_nested_collision_counterexample:
  "\<not> js_includes ''[search.x\<newline>[search.custom]\<newline>'' ''[search]'' \<and>
   js_includes ''[search.x\<newline>[search.custom]\<newline>'' ''[search.custom]'' \<and>
   updateTomlValue ''[search.x\<newline>[search.custom]\<newline>'' ''search.custom'' ''v'' =
     Some ''[search.x\<newline>[search.custom]\<newline>\<newline>[search]\<newline>custom = \"v\"\<newline>''"
  by code_simp

text \<open>
  Claim C2, amended: when the text \<^verbatim>\<open>[section]\<close> does not occur in the content, the
  header \<^verbatim>\<open>[section.key]\<close> does, and every opening \<^verbatim>\<open>[section.\<close> in the content is closed
  before the next opening bracket, the two-segment call returns the content unchanged,
  for every value.
\<close>

theorem updateTomlValue_nested_collision:
  assumes "literal section" and "CHR ''.'' \<notin> set key" and "CHR '']'' \<notin> set key"
    and "\<not> js_includes content (''['' @ section @ '']'')"
    and "js_includes content (''['' @ section @ ''.'' @ key @ '']'')"
    and "headers_closed section content"
  shows "updateTomlValue content (section @ ''.'' @ key) v = Some content"
proof -
  have nb: "CHR ''['' \<notin> set section" "CHR ''.'' \<notin> set section"
    using literal_no_bracket[OF assms(1)] by auto
  have sp: "split_dot (section @ ''.'' @ key) = [section, key]"
    using nb(2) assms(2) by (rule split_dot_two)
  have c: "compile True section = Some (map Lit section)"
     "compile False section = Some (map Lit section)"
    using assms(1) by (auto intro: compile_literal)
  have fs: "find_section (map Lit section) content = None"
    using assms(4) find_section_Lit_None[of "section" content] by simp
  have "key \<in> fst ` set (nested_matches (map Lit section) content)"
    using nested_scan_finds[OF assms(3) nb(1) assms(6)] assms(5) by simp
  then have fm: "foundMatch (map Lit section) key content" by (simp add: foundMatch_def)
  show ?thesis using sp c fs fm by (simp add: updateTomlValue_def Let_def)
qed

text \<open>
  Witness for C2 (amended): a document with the nested section \<^verbatim>\<open>[search.custom]\<close> and no
  \<^verbatim>\<open>[search]\<close> section is left unchanged by the call for \<^verbatim>\<open>search.custom\<close>.
\<close>

theorem updateTomlValue_nested_collision_witness:
  "updateTomlValue ''[llm.vision]\<newline>model = \"a\"\<newline>[search.custom]\<newline>url = \"u\"\<newline>'' ''search.custom'' ''v''
     = Some ''[llm.vision]\<newline>model = \"a\"\<newline>[search.custom]\<newline>url = \"u\"\<newline>''"
proof -
  have "literal ''search''" "CHR ''.'' \<notin> set ''custom''" "CHR '']'' \<notin> set ''custom''"
    "\<not> js_includes ''[llm.vision]\<newline>model = \"a\"\<newline>[search.custom]\<newline>url = \"u\"\<newline>'' (''['' @ ''search'' @ '']'')"
    "js_includes ''[llm.vision]\<newline>model = \"a\"\<newline>[search.custom]\<newline>url = \"u\"\<newline>'' (''['' @ ''search'' @ ''.'' @ ''custom'' @ '']'')"
    "headers_closed ''search'' ''[llm.vision]\<newline>model = \"a\"\<newline>[search.custom]\<newline>url = \"u\"\<newline>''"
    by code_simp+
  from updateTomlValue_nested_collision[OF this] show ?thesis by simp
qed

section \<open>The section reader\<close>

text \<open>
  Claim C8, as stated, fails for a section name with a dot: the dot is interpolated into
  the expression as a wildcard, so the name \<^verbatim>\<open>llm.vision\<close> reads the span of the header
  \<^verbatim>\<open>[llm_vision]\<close> although the document has neither a section \<^verbatim>\<open>[llm.vision]\<close> nor a
  nested section of it. It also fails for the nested name \<^verbatim>\<open>__proto__\<close>: the assignment
  \<^verbatim>\<open>nestedSections['__proto__'] = text\<close> adds no own property, so a document whose only
  nested section is \<^verbatim>\<open>[llm.__proto__]\<close> reads as \<^verbatim>\<open>null\<close>.
\<close>

theorem getConfigSection_contract_counterexample:
  "\<not> js_includes ''[llm_vision]\<newline>model = \"x\"\<newline>'' ''[llm.vision'' \<and>
   getConfigSection (Some ''[llm_vision]\<newline>model = \"x\"\<newline>'') ''llm.vision''
     = Some (Text ''model = \"x\"'') \<and>
   js_includes ''[llm.__proto__]\<newline>a = 1\<newline>'' ''[llm.__proto__]'' \<and>
   getConfigSection (Some ''[llm.__proto__]\<newline>a = 1\<newline>'') ''llm'' = Some Null"
  by code_simp

text \<open>
  Claim C8, amended: for a section name without regular-expression syntax characters,
  an unreadable or empty file reads as \<^verbatim>\<open>null\<close>; a document whose first \<^verbatim>\<open>[name]\<close> header
  has the span \<open>g\<close> reads as the trimmed \<open>g\<close>; a non-empty document without the text
  \<^verbatim>\<open>[name]\<close>, in which the scan finds no nested section named \<^verbatim>\<open>__proto__\<close>, reads as
  \<^verbatim>\<open>null\<close> when the scan finds no nested section at all, and otherwise as the object that
  maps every nested name \<open>X\<close> found by the scan to the trimmed span of the last
  \<^verbatim>\<open>[name.X]\<close> found.
\<close>

theorem getConfigSection_contract:
  assumes "literal name"
  shows "getConfigSection None name = Some Null \<and>
    getConfigSection (Some []) name = Some Null \<and>
    (c = b @ ''['' @ name @ '']'' @ g @ a \<and>
     \<not> js_includes (b @ ''['' @ name) (''['' @ name @ '']'') \<and>
     CHR ''['' \<notin> set g \<and> (a = [] \<or> hd a = CHR ''['') \<longrightarrow>
       getConfigSection (Some c) name = Some (Text (js_trim g))) \<and>
    (c \<noteq> [] \<and> \<not> js_includes c (''['' @ name @ '']'') \<and>
     ''__proto__'' \<notin> fst ` set (nested_matches (map Lit name) c) \<longrightarrow>
       getConfigSection (Some c) name =
         (if nested_matches (map Lit name) c = [] then Some Null
          else Some (Nested (collect_nested (nested_matches (map Lit name) c)))) \<and>
       (\<forall>x. map_of (collect_nested (nested_matches (map Lit name) c)) x =
          map_option js_trim (map_of (rev (nested_matches (map Lit name) c)) x)))"
proof -
  let ?ms = "nested_matches (map Lit name) c"
  have cl: "compile True name = Some (map Lit name)" "compile False name = Some (map Lit name)"
    using assms by (auto intro: compile_literal)
  have 1: "getConfigSection None name = Some Null" "getConfigSection (Some []) name = Some Null"
    by (simp_all add: getConfigSection_def)
  have 2: "getConfigSection (Some c) name = Some (Text (js_trim g))"
    if h: "c = b @ ''['' @ name @ '']'' @ g @ a \<and>
     \<not> js_includes (b @ ''['' @ name) (''['' @ name @ '']'') \<and>
     CHR ''['' \<notin> set g \<and> (a = [] \<or> hd a = CHR ''['')"
  proof -
    have "find_section (map Lit name) (b @ CHR ''['' # name) = None"
      using h find_section_Lit_None[of name "b @ CHR ''['' # name"] by simp
    then have "find_section (map Lit name) (b @ CHR ''['' # name @ CHR '']'' # g @ a)
       = Some (b, CHR ''['' # name @ CHR '']'' # g, [g], a)"
      using h by (intro find_section_at) auto
    then have "find_section (map Lit name) c = Some (b, CHR ''['' # name @ CHR '']'' # g, [g], a)"
      using h by simp
    moreover have "c \<noteq> []" using h by simp
    ultimately show ?thesis using cl by (simp add: getConfigSection_def)
  qed
  have 3: "getConfigSection (Some c) name =
         (if ?ms = [] then Some Null else Some (Nested (collect_nested ?ms))) \<and>
       (\<forall>x. map_of (collect_nested ?ms) x = map_option js_trim (map_of (rev ?ms) x))"
    if h: "c \<noteq> [] \<and> \<not> js_includes c (''['' @ name @ '']'') \<and> ''__proto__'' \<notin> fst ` set ?ms"
  proof -
    from h have h1: "c \<noteq> []" and h2: "\<not> js_includes c (''['' @ name @ '']'')"
      and np: "''__proto__'' \<notin> fst ` set ?ms" by (rule conjunct1, rule conjunct2[THEN conjunct1], rule conjunct2[THEN conjunct2])
    have fs: "find_section (map Lit name) c = None"
      using h2 find_section_Lit_None[of name c] by simp
    have e: "collect_nested ?ms = [] \<longleftrightarrow> ?ms = []"
    proof
      assume "collect_nested ?ms = []"
      then have all: "\<forall>x\<in>fst ` set ?ms. x = ''__proto__''"
        by (simp only: collect_nested_Nil)
      show "?ms = []"
      proof (rule ccontr)
        assume "?ms \<noteq> []"
        then obtain p where p: "p \<in> set ?ms" by (cases ?ms) auto
        then have i: "fst p \<in> fst ` set ?ms" by (rule imageI)
        with all have fp: "fst p = ''__proto__''" by (rule bspec)
        have "''__proto__'' \<in> fst ` set ?ms" using i unfolding fp .
        with np show False by (rule notE)
      qed
    next
      assume "?ms = []"
      then show "collect_nested ?ms = []" by (simp add: collect_nested_def)
    qed
    have "''__proto__'' \<notin> fst ` set (rev ?ms)" unfolding set_rev by (rule np)
    then have pn: "map_of (rev ?ms) ''__proto__'' = None"
      by (rule iffD2[OF map_of_eq_None_iff])
    have m: "map_of (collect_nested ?ms) x = map_option js_trim (map_of (rev ?ms) x)" for x
    proof (cases "x = ''__proto__''")
      case True
      then show ?thesis using pn collect_nested_map_of[of ?ms x] by simp
    next
      case False
      then show ?thesis using collect_nested_map_of[of ?ms x] by simp
    qed
    have "getConfigSection (Some c) name =
         (if ?ms = [] then Some Null else Some (Nested (collect_nested ?ms)))"
      using h1 cl fs e by (simp add: getConfigSection_def Let_def)
    then show ?thesis using m by (intro conjI allI)
  qed
  show ?thesis using 1 2 3 by blast
qed

text \<open>
  Witness for C8 (amended): an unreadable file, a top-level section, two nested sections,
  and a document without any section of that name.
\<close>

theorem getConfigSection_contract_witness:
  "getConfigSection None ''llm'' = Some Null \<and>
   getConfigSection (Some ''[llm]\<newline>model = \"x\"\<newline>\<newline>[llm.vision]\<newline>model = \"y\"\<newline>'') ''llm''
     = Some (Text ''model = \"x\"'') \<and>
   getConfigSection (Some ''[llm.vision]\<newline>model = \"y\"\<newline>[llm.openrouter]\<newline>site_url = \"u\"\<newline>'') ''llm''
     = Some (Nested [(''vision'', ''model = \"y\"''), (''openrouter'', ''site_url = \"u\"'')]) \<and>
   getConfigSection (Some ''[browser]\<newline>headless = true\<newline>'') ''llm'' = Some Null"
proof -
  have l: "literal ''llm''" by code_simp
  have a: "\<not> js_includes ('''' @ ''['' @ ''llm'') (''['' @ ''llm'' @ '']'')"
    "js_trim ''\<newline>model = \"x\"\<newline>\<newline>'' = ''model = \"x\"''"
    by code_simp+
  have b: "\<not> js_includes ''[llm.vision]\<newline>model = \"y\"\<newline>[llm.openrouter]\<newline>site_url = \"u\"\<newline>'' (''['' @ ''llm'' @ '']'')"
    "nested_matches (map Lit ''llm'') ''[llm.vision]\<newline>model = \"y\"\<newline>[llm.openrouter]\<newline>site_url = \"u\"\<newline>''
       = [(''vision'', ''\<newline>model = \"y\"\<newline>''), (''openrouter'', ''\<newline>site_url = \"u\"\<newline>'')]"
    "collect_nested [(''vision'', ''\<newline>model = \"y\"\<newline>''), (''openrouter'', ''\<newline>site_url = \"u\"\<newline>'')]
       = [(''vision'', ''model = \"y\"''), (''openrouter'', ''site_url = \"u\"'')]"
    by code_simp+
  have c: "\<not> js_includes ''[browser]\<newline>headless = true\<newline>'' (''['' @ ''llm'' @ '']'')"
    "nested_matches (map Lit ''llm'') ''[browser]\<newline>headless = true\<newline>'' = []"
    by code_simp+
  have d: "''__proto__'' \<notin> fst ` set [(''vision'', ''\<newline>model = \"y\"\<newline>''), (''openrouter'', ''\<newline>site_url = \"u\"\<newline>'')]"
    by simp
  show ?thesis
    using getConfigSection_contract[OF l, of
        "''[llm]\<newline>model = \"x\"\<newline>\<newline>[llm.vision]\<newline>model = \"y\"\<newline>''" "[]"
        "''\<newline>model = \"x\"\<newline>\<newline>''" "''[llm.vision]\<newline>model = \"y\"\<newline>''"]
      getConfigSection_contract[OF l, of
        "''[llm.vision]\<newline>model = \"y\"\<newline>[llm.openrouter]\<newline>site_url = \"u\"\<newline>''" "[]" "[]" "[]"]
      getConfigSection_contract[OF l, of "''[browser]\<newline>headless = true\<newline>''" "[]" "[]" "[]"]
      a b c d
    by simp
qed

section \<open>Setting a value and reading the section back\<close>




section \<open>Applying the same setting twice\<close>

text \<open>
  Claim C3, as stated, fails for an array literal: the first call appends the
  assignment, the second call finds the key in a span that ends at the opening bracket
  of the value, and replaces only the text before the bracket, so the array is written
  a second time in front of the first.
\<close>

theorem updateTomlValue_idempotent_counterexample:
  "updateTomlValue ''[search]\<newline>'' ''search.fallback_engines'' ''[\"bing\"]''
     = Some ''[search]\<newline>\<newline>fallback_engines = [\"bing\"]'' \<and>
   updateTomlValue ''[search]\<newline>\<newline>fallback_engines = [\"bing\"]'' ''search.fallback_engines'' ''[\"bing\"]''
     = Some ''[search]\<newline>\<newline>fallback_engines = [\"bing\"][\"bing\"]''"
  by code_simp

text \<open>
  Claim C3, amended: let the segments of a two- or three-segment path be free of
  regular-expression syntax characters, the key be non-empty and contain neither white
  space nor \<^verbatim>\<open>=\<close>, the value contain no \<^verbatim>\<open>[\<close>, no \<^verbatim>\<open>$\<close> and no line terminator and
  not consist of white space only, and the span captured for the target section contain
  no \<^verbatim>\<open>$\<close>. Then the patcher returns a document, and applying it again to that document
  with the same path and value returns the same document.
\<close>

theorem updateTomlValue_idempotent:
  assumes "literal s" and "literal t" and "literal key"
    and "name = s \<or> name = s @ ''.'' @ t"
    and "key \<noteq> []" and "\<forall>c\<in>set key. \<not> is_ws c" and "CHR ''='' \<notin> set key"
    and "CHR ''['' \<notin> set v" and "CHR ''$'' \<notin> set v"
    and "\<forall>c\<in>set v. \<not> is_line_terminator c" and "\<exists>c\<in>set v. \<not> is_ws c"
    and "CHR ''$'' \<notin> set (section_span name content)"
  shows "\<exists>c1. updateTomlValue content (name @ ''.'' @ key) v = Some c1 \<and>
              updateTomlValue c1 (name @ ''.'' @ key) v = Some c1"
proof -
  let ?fv = "formatValue v"
  have fv: "CHR ''['' \<notin> set ?fv" "CHR ''$'' \<notin> set ?fv"
    using formatValue_avoids[of "CHR ''[''" v] formatValue_avoids[of "CHR ''$''" v] assms(8,9)
    by simp_all
  note nl = formatValue_line[OF assms(10)] and nw = formatValue_visible[OF assms(11)]
  from assms(4) show ?thesis
  proof
    assume n: "name = s"
    have cp: "compile True name = Some (map Lit s)"
      unfolding n using assms(1) by (rule compile_literal)
    note u = updateTomlValue_two[OF assms(1,3)]
    show ?thesis
    proof (cases "find_section (map Lit s) content = None \<and> foundMatch (map Lit s) key content")
      case True
      then have "updateTomlValue content (name @ ''.'' @ key) v = Some content"
        unfolding n u by simp
      then show ?thesis by simp
    next
      case False
      from idempotent_core[OF cp assms(3,5,6,7) fv nl nw assms(12)]
      obtain c1 where
        1: "(case find_section (map Lit s) content of
               Some mt \<Rightarrow> patch_section name mt key ?fv content
             | None \<Rightarrow> Some (content @ ''\<newline>['' @ name @ '']\<newline>'' @ key @ '' = '' @ ?fv @ ''\<newline>''))
            = Some c1"
        and 2: "find_section (map Lit s) c1 \<noteq> None"
        and 3: "(case find_section (map Lit s) c1 of
               Some mt \<Rightarrow> patch_section name mt key ?fv c1
             | None \<Rightarrow> Some (c1 @ ''\<newline>['' @ name @ '']\<newline>'' @ key @ '' = '' @ ?fv @ ''\<newline>''))
            = Some c1"
        by blast
      have "updateTomlValue content (name @ ''.'' @ key) v = Some c1"
        unfolding n u using 1 False n by (auto split: option.splits)
      moreover have "updateTomlValue c1 (name @ ''.'' @ key) v = Some c1"
        unfolding n u using 2 3 n by (auto split: option.splits)
      ultimately show ?thesis by blast
    qed
  next
    assume n: "name = s @ ''.'' @ t"
    have cp: "compile True name = Some (map Lit s @ Dot True # map Lit t)"
      unfolding n using assms(1,2) by (rule compile_nested_name)
    have u: "updateTomlValue c (name @ ''.'' @ key) v =
        (case find_section (map Lit s @ Dot True # map Lit t) c of
           Some mt \<Rightarrow> patch_section name mt key ?fv c
         | None \<Rightarrow> Some (c @ ''\<newline>['' @ name @ '']\<newline>'' @ key @ '' = '' @ ?fv @ ''\<newline>''))" for c
      unfolding n using updateTomlValue_three[OF assms(1,2,3), of c v] by simp
    from idempotent_core[OF cp assms(3,5,6,7) fv nl nw assms(12)]
    show ?thesis unfolding u by blast
  qed
qed

text \<open>
  Witness for C3 (amended): updating an existing key of \<^verbatim>\<open>[llm]\<close>, and creating the
  nested section \<^verbatim>\<open>[browser.proxy]\<close> in the empty document.
\<close>

theorem updateTomlValue_idempotent_witness:
  "(\<exists>c1. updateTomlValue ''[llm]\<newline>model = \"gpt-4\"\<newline>'' (''llm'' @ ''.'' @ ''model'') ''gpt-4o'' = Some c1 \<and>
      updateTomlValue c1 (''llm'' @ ''.'' @ ''model'') ''gpt-4o'' = Some c1) \<and>
   (\<exists>c1. updateTomlValue [] (''browser.proxy'' @ ''.'' @ ''server'') ''http://p:8080'' = Some c1 \<and>
      updateTomlValue c1 (''browser.proxy'' @ ''.'' @ ''server'') ''http://p:8080'' = Some c1) \<and>
   updateTomlValue ''[llm]\<newline>model = \"gpt-4\"\<newline>'' ''llm.model'' ''gpt-4o''
     = Some ''[llm]\<newline>model = \"gpt-4o\"\<newline>'' \<and>
   updateTomlValue ''[llm]\<newline>model = \"gpt-4o\"\<newline>'' ''llm.model'' ''gpt-4o''
     = Some ''[llm]\<newline>model = \"gpt-4o\"\<newline>''"
proof -
  have l: "literal ''llm''" "literal ''vision''" "literal ''model''"
    "literal ''browser''" "literal ''proxy''" "literal ''server''"
    by code_simp+
  have n1: "''llm'' = ''llm'' \<or> ''llm'' = ''llm'' @ ''.'' @ ''vision''" by simp
  have n2: "''browser.proxy'' = ''browser'' \<or> ''browser.proxy'' = ''browser'' @ ''.'' @ ''proxy''"
    by simp
  have k1: "''model'' \<noteq> []" "\<forall>c\<in>set ''model''. \<not> is_ws c" "CHR ''='' \<notin> set ''model''"
    by code_simp+
  have k2: "''server'' \<noteq> []" "\<forall>c\<in>set ''server''. \<not> is_ws c" "CHR ''='' \<notin> set ''server''"
    by code_simp+
  have v1: "CHR ''['' \<notin> set ''gpt-4o''" "CHR ''$'' \<notin> set ''gpt-4o''"
    "\<forall>c\<in>set ''gpt-4o''. \<not> is_line_terminator c" "\<exists>c\<in>set ''gpt-4o''. \<not> is_ws c"
    by code_simp+
  have v2: "CHR ''['' \<notin> set ''http://p:8080''" "CHR ''$'' \<notin> set ''http://p:8080''"
    "\<forall>c\<in>set ''http://p:8080''. \<not> is_line_terminator c" "\<exists>c\<in>set ''http://p:8080''. \<not> is_ws c"
    by code_simp+
  have c1: "CHR ''$'' \<notin> set (section_span ''llm'' ''[llm]\<newline>model = \"gpt-4\"\<newline>'')"
    by code_simp
  have c2: "CHR ''$'' \<notin> set (section_span ''browser.proxy'' [])"
    by code_simp
  have e: "updateTomlValue ''[llm]\<newline>model = \"gpt-4\"\<newline>'' ''llm.model'' ''gpt-4o''
     = Some ''[llm]\<newline>model = \"gpt-4o\"\<newline>''"
    "updateTomlValue ''[llm]\<newline>model = \"gpt-4o\"\<newline>'' ''llm.model'' ''gpt-4o''
     = Some ''[llm]\<newline>model = \"gpt-4o\"\<newline>''"
    by code_simp+
  show ?thesis
    using updateTomlValue_idempotent[OF l(1,2,3) n1 k1 v1 c1]
      updateTomlValue_idempotent[OF l(4,5,6) n2 k2 v2 c2] e
    by blast
qed

section \<open>Environment overrides in declaration order\<close>



end
